theory Spec2Isabelle
  imports Main
begin

section \<open>Unicode classification (unicode.js)\<close>

text \<open>
  A chunk is a JavaScript string, read through \<open>charCodeAt\<close>: a sequence of character
  codes.  Character codes and the counters of the lexer are JavaScript numbers that
  hold integers, modelled as \<open>int\<close> (the lexer only adds and subtracts one; the
  sentinel \<open>-1\<close> is used for \<open>tokenValueOffset\<close> and, for an instant, for
  \<open>tokenColumn\<close>).
\<close>

type_synonym chunk = "int list"

definition LINE_FEED :: int where "LINE_FEED = 0x000A"
definition APOSTROPHE :: int where "APOSTROPHE = 0x0027"
definition PLUS_SIGN :: int where "PLUS_SIGN = 0x002B"
definition FULL_STOP :: int where "FULL_STOP = 0x002E"
definition DIGIT_ZERO :: int where "DIGIT_ZERO = 0x0030"
definition CAPITAL_LETTER_E :: int where "CAPITAL_LETTER_E = 0x0045"
definition REVERSE_SOLIDUS :: int where "REVERSE_SOLIDUS = 0x005C"
definition SMALL_LETTER_E :: int where "SMALL_LETTER_E = 0x0065"
definition SMALL_LETTER_X :: int where "SMALL_LETTER_X = 0x0078"

definition is_space :: "int \<Rightarrow> bool" where
  "is_space c \<longleftrightarrow>
     c = 0x0009 \<or> c = 0x0020 \<or> c = 0x00A0 \<or> c = 0x180E
     \<or> (c > 0x1fff \<and> c < 0x200C)
     \<or> c = 0x202F \<or> c = 0x205F \<or> c = 0x3000 \<or> c = 0xFEFF"

definition is_linebreak :: "int \<Rightarrow> bool" where
  "is_linebreak c \<longleftrightarrow>
     (c > 0x0009 \<and> c < 0x000E) \<or> c = 0x0085 \<or> c = 0x2028 \<or> c = 0x2029"

definition is_whitespace :: "int \<Rightarrow> bool" where
  "is_whitespace c \<longleftrightarrow> is_space c \<or> is_linebreak c"

definition is_decdigit :: "int \<Rightarrow> bool" where
  "is_decdigit c \<longleftrightarrow> c > 0x002F \<and> c < 0x003A"

definition is_hexdigit :: "int \<Rightarrow> bool" where
  "is_hexdigit c \<longleftrightarrow>
     (c > 0x002F \<and> c < 0x003A) \<or> (c > 0x0040 \<and> c < 0x0047) \<or> (c > 0x0060 \<and> c < 0x0067)"


section \<open>Tokens (Lexer.js)\<close>

text \<open>The token types, in the order in which \<open>deftok\<close> numbers them.\<close>

datatype TokenKind =
    LINE | LEFT_PAREN | RIGHT_PAREN | LEFT_SQUARE_BRACKET | RIGHT_SQUARE_BRACKET
  | LEFT_CURLY_BRACKET | RIGHT_CURLY_BRACKET | FULL_STOP_TOKEN | COLON
  | DECIMAL_NUMBER | HEX_NUMBER | FRACTIONAL_NUMBER | SYMBOL | TEXT

text \<open>
  \<open>SINGLE_TOKENS\<close>: the map from a character code to the type of the single-character
  token it is, filled by the \<open>deftok\<close> calls that pass a character.
\<close>

definition SINGLE_TOKENS :: "int \<Rightarrow> TokenKind option" where
  "SINGLE_TOKENS c =
     (if c = 0x28 then Some LEFT_PAREN
      else if c = 0x29 then Some RIGHT_PAREN
      else if c = 0x5B then Some LEFT_SQUARE_BRACKET
      else if c = 0x5D then Some RIGHT_SQUARE_BRACKET
      else if c = 0x7B then Some LEFT_CURLY_BRACKET
      else if c = 0x7D then Some RIGHT_CURLY_BRACKET
      else if c = 0x2E then Some FULL_STOP_TOKEN
      else if c = 0x3A then Some COLON
      else None)"

definition is_symbol_character :: "int \<Rightarrow> bool" where
  "is_symbol_character c \<longleftrightarrow>
     c > 0x0020
     \<and> c \<noteq> REVERSE_SOLIDUS
     \<and> \<not> (c > 0x007E \<and> c < 0x00A1)
     \<and> \<not> is_whitespace c
     \<and> SINGLE_TOKENS c = None"

text \<open>
  The \<open>value\<close> property of a token: \<open>undefined\<close> when the token object is made, a
  string once the text is buffered or sliced, a number for a LINE token.
\<close>

datatype tvalue = Undefined | Str chunk | Num int

record token =
  tok_type :: TokenKind
  tok_value :: tvalue
  offset :: int
  line :: int
  column :: int

text \<open>
  What JavaScript can throw in this program: the three \<open>Error\<close>s the lexer raises
  itself, the \<open>Error\<close> of the \<open>default\<close> branch, a \<open>ReferenceError\<close> for reading an
  identifier that is not declared, and a \<open>TypeError\<close> for reading a property of
  \<open>null\<close> or \<open>undefined\<close>.
\<close>

datatype error =
    UnexpectedCharacter int
  | UnexpectedX
  | TextNotImplemented
  | UnexpectedTokenType TokenKind
  | ReferenceError
  | TypeError


section \<open>The lexer object and its chunk queue\<close>

text \<open>
  The queue is a singly-linked list of objects \<open>{value, next}\<close> that \<open>appendSource\<close>
  mutates through the \<open>sourceTail\<close> reference.  The objects live in an explicit store:
  \<open>heap\<close> maps an address to the object there, and \<open>nextAddr\<close> is the address the next
  object literal gets.  \<open>None\<close> is \<open>null\<close>.
\<close>

type_synonym addr = nat

record node =
  chunk_value :: chunk
  chunk_next :: "addr option"

record lexer =
  heap :: "addr \<Rightarrow> node"
  nextAddr :: addr
  source :: "addr option"
  sourceTail :: "addr option"
  sourceOffset :: int
  tokenOffset :: int
  tokenLine :: int
  tokenColumn :: int
  token :: "token option"
  tokenValueOffset :: int

definition Lexer :: lexer where
  "Lexer = \<lparr> heap = (\<lambda>_. \<lparr> chunk_value = [], chunk_next = None \<rparr>), nextAddr = 0,
       source = None, sourceTail = None, sourceOffset = 0,
       tokenOffset = 0, tokenLine = 0, tokenColumn = 0,
       token = None, tokenValueOffset = - 1 \<rparr>"

text \<open>\<open>charCodeAt\<close>: \<open>None\<close> is the \<open>NaN\<close> of an index out of bounds.\<close>

definition charCodeAt :: "chunk \<Rightarrow> int \<Rightarrow> int option" where
  "charCodeAt v i = (if 0 \<le> i \<and> i < int (length v) then Some (v ! nat i) else None)"

text \<open>
  \<open>substring(a, b)\<close>: both indices are clamped to the string and swapped when out of
  order; a missing second index is the length.
\<close>

definition substring :: "chunk \<Rightarrow> int \<Rightarrow> int option \<Rightarrow> chunk" where
  "substring v a b =
     (let n = int (length v);
          st = min (max a 0) n;
          en = (case b of None \<Rightarrow> n | Some b' \<Rightarrow> min (max b' 0) n);
          lo = min st en;
          hi = max st en
      in take (nat (hi - lo)) (drop (nat lo) v))"

definition appendSource :: "chunk \<Rightarrow> lexer \<Rightarrow> error + lexer" where
  "appendSource v s =
     (let a = nextAddr s;
          s1 = s\<lparr> heap := (heap s)(a := \<lparr> chunk_value = v, chunk_next = None \<rparr>),
                  nextAddr := a + 1 \<rparr>
      in case source s1 of
           None \<Rightarrow> Inr (s1\<lparr> source := Some a, sourceTail := Some a \<rparr>)
         | Some _ \<Rightarrow>
             (case sourceTail s1 of
                None \<Rightarrow> Inl TypeError
              | Some t \<Rightarrow>
                  Inr (s1\<lparr> heap := (heap s1)(t := (heap s1 t)\<lparr> chunk_next := Some a \<rparr>),
                           sourceTail := Some a \<rparr>)))"

definition makeToken :: "TokenKind \<Rightarrow> lexer \<Rightarrow> token" where
  "makeToken ty s =
     \<lparr> tok_type = ty, tok_value = Undefined,
       offset = tokenOffset s, line = tokenLine s, column = tokenColumn s \<rparr>"

definition flushToken :: "lexer \<Rightarrow> error + token \<times> lexer" where
  "flushToken s =
     (case token s of
        None \<Rightarrow> Inl TypeError
      | Some t \<Rightarrow>
          (let s1 = s\<lparr> token := None \<rparr> in
           if tok_type t = LINE then
             Inr (t\<lparr> tok_value := Num (tokenOffset s1 - offset t - 1) \<rparr>, s1)
           else if tokenValueOffset s1 \<noteq> - 1 then
             (case source s1 of
                None \<Rightarrow> Inl TypeError
              | Some a \<Rightarrow>
                  Inr (t\<lparr> tok_value :=
                            Str (substring (chunk_value (heap s1 a))
                                   (tokenValueOffset s1) (Some (sourceOffset s1))) \<rparr>,
                       s1\<lparr> tokenValueOffset := - 1 \<rparr>))
           else Inr (t, s1)))"


section \<open>Reading the next token\<close>

text \<open>
  \<open>this.token.value += String.fromCharCode(c)\<close>.  The left operand is a string
  whenever the lexer gets here; JavaScript converts any other value to a string first.
\<close>

fun nat_digits :: "nat \<Rightarrow> chunk" where
  "nat_digits n = (if n < 10 then [48 + int n] else nat_digits (n div 10) @ [48 + int (n mod 10)])"

definition number_string :: "int \<Rightarrow> chunk" where
  "number_string i = (if i < 0 then 45 # nat_digits (nat (- i)) else nat_digits (nat i))"

fun js_concat :: "tvalue \<Rightarrow> int \<Rightarrow> tvalue" where
  "js_concat (Str v) c = Str (v @ [c])"
| "js_concat Undefined c = Str ([117, 110, 100, 101, 102, 105, 110, 101, 100] @ [c])"
| "js_concat (Num i) c = Str (number_string i @ [c])"

text \<open>
  What one pass through the body of a loop of \<open>next\<close> does: it throws, it returns a
  token from \<open>next\<close>, or it goes on with the loop.
\<close>

datatype outcome = Throw error | Return token lexer | Continue lexer

text \<open>``If the token is buffered, append the character'', on the token \<open>t\<close> being read.\<close>

definition append_value :: "int \<Rightarrow> token \<Rightarrow> lexer \<Rightarrow> lexer" where
  "append_value c t s =
     (if tokenValueOffset s = - 1
      then s\<lparr> token := Some (t\<lparr> tok_value := js_concat (tok_value t) c \<rparr>) \<rparr>
      else s\<lparr> token := Some t \<rparr>)"

text \<open>\<open>return this.flushToken()\<close> inside the loop.\<close>

definition flush_return :: "lexer \<Rightarrow> outcome" where
  "flush_return s = (case flushToken s of Inl e \<Rightarrow> Throw e | Inr (t, s') \<Rightarrow> Return t s')"

text \<open>
  The branch \<open>this.token === null\<close>: the result is the local variable \<open>token\<close>
  (\<open>None\<close> is \<open>undefined\<close>) and the lexer.  No single-character token has the
  falsy type number 0, so the test on \<open>SINGLE_TOKENS[c]\<close> is a test for presence.
\<close>

definition begin_token :: "int \<Rightarrow> lexer \<Rightarrow> error + token option \<times> lexer" where
  "begin_token c s =
     (case SINGLE_TOKENS c of
        Some ty \<Rightarrow> Inr (Some (makeToken ty s), s)
      | None \<Rightarrow>
          if c = LINE_FEED then
            Inr (None, s\<lparr> token := Some (makeToken LINE s),
                          tokenLine := tokenLine s + 1, tokenColumn := - 1 \<rparr>)
          else if c = APOSTROPHE then
            Inr (None, s\<lparr> token := Some (makeToken TEXT s),
                          tokenValueOffset := sourceOffset s \<rparr>)
          else if is_decdigit c then
            Inr (None, s\<lparr> token := Some (makeToken DECIMAL_NUMBER s),
                          tokenValueOffset := sourceOffset s \<rparr>)
          else if is_symbol_character c then
            Inr (None, s\<lparr> token := Some (makeToken SYMBOL s),
                          tokenValueOffset := sourceOffset s \<rparr>)
          else if is_whitespace c then
            Inr (None, if sourceOffset s = 0 then s\<lparr> token := Some (makeToken LINE s) \<rparr> else s)
          else Inl (UnexpectedCharacter c))"

text \<open>
  The condition under which an \<open>x\<close> in a decimal number is a syntax error.  Its last
  operand reads the identifier \<open>DIGIT_ZERO\<close>, which the file does not declare (the
  constant is \<open>UC.DIGIT_ZERO\<close>): evaluating it throws a \<open>ReferenceError\<close>.
\<close>

definition bad_hex_prefix :: "token \<Rightarrow> lexer \<Rightarrow> error + bool" where
  "bad_hex_prefix t s =
     (if tokenValueOffset s \<noteq> - 1 then
        (if tokenValueOffset s \<noteq> sourceOffset s - 1 then Inr True
         else case source s of
                None \<Rightarrow> Inl TypeError
              | Some a \<Rightarrow>
                  Inr (charCodeAt (chunk_value (heap s a)) (tokenValueOffset s) \<noteq> Some DIGIT_ZERO))
      else
        (case tok_value t of
           Undefined \<Rightarrow> Inl TypeError
         | Num i \<Rightarrow> Inr True
         | Str v \<Rightarrow> if length v \<noteq> 1 then Inr True else Inl ReferenceError))"

text \<open>The branch \<open>this.token !== null\<close>: the \<open>switch\<close> on the type of the token \<open>t\<close>.\<close>

definition continue_token :: "token \<Rightarrow> int \<Rightarrow> lexer \<Rightarrow> outcome" where
  "continue_token t c s =
     (case tok_type t of
        SYMBOL \<Rightarrow>
          if is_symbol_character c then Continue (append_value c t s) else flush_return s
      | DECIMAL_NUMBER \<Rightarrow>
          if c = SMALL_LETTER_X then
            (case bad_hex_prefix t s of
               Inl e \<Rightarrow> Throw e
             | Inr True \<Rightarrow> Throw UnexpectedX
             | Inr False \<Rightarrow> Continue (append_value c (t\<lparr> tok_type := HEX_NUMBER \<rparr>) s))
          else if c = FULL_STOP then
            Continue (append_value c (t\<lparr> tok_type := FRACTIONAL_NUMBER \<rparr>) s)
          else if \<not> is_decdigit c then flush_return s
          else Continue (append_value c t s)
      | HEX_NUMBER \<Rightarrow>
          if is_hexdigit c then Continue (append_value c t s) else flush_return s
      | FRACTIONAL_NUMBER \<Rightarrow>
          if c = FULL_STOP \<or> c = PLUS_SIGN \<or> c = CAPITAL_LETTER_E \<or> c = SMALL_LETTER_E
             \<or> is_decdigit c
          then Continue (append_value c t s) else flush_return s
      | TEXT \<Rightarrow> Throw TextNotImplemented
      | LINE \<Rightarrow> if \<not> is_space c then flush_return s else Continue s
      | _ \<Rightarrow> Throw (UnexpectedTokenType (tok_type t)))"

text \<open>``Increment source counters and advance input.''\<close>

definition advance :: "lexer \<Rightarrow> lexer" where
  "advance s = s\<lparr> sourceOffset := sourceOffset s + 1,
                  tokenOffset := tokenOffset s + 1,
                  tokenColumn := tokenColumn s + 1 \<rparr>"

text \<open>The body of the inner loop, for the character \<open>c\<close>.\<close>

definition step :: "int \<Rightarrow> lexer \<Rightarrow> outcome" where
  "step c s =
     (case token s of
        None \<Rightarrow>
          (case begin_token c s of
             Inl e \<Rightarrow> Throw e
           | Inr (tok, s1) \<Rightarrow>
               (case tok of
                  Some t \<Rightarrow> Return t (advance s1)
                | None \<Rightarrow> Continue (advance s1)))
      | Some t \<Rightarrow>
          (case continue_token t c s of
             Continue s1 \<Rightarrow> Continue (advance s1)
           | r \<Rightarrow> r))"

lemma begin_token_frame:
  assumes "begin_token c s = Inr (tok, s1)"
  shows "heap s1 = heap s \<and> nextAddr s1 = nextAddr s \<and> source s1 = source s
       \<and> sourceTail s1 = sourceTail s \<and> sourceOffset s1 = sourceOffset s
       \<and> tokenOffset s1 = tokenOffset s"
  using assms unfolding begin_token_def
  by (cases "SINGLE_TOKENS c") (auto split: if_splits)

lemma append_value_frame:
  "heap (append_value c t s) = heap s \<and> nextAddr (append_value c t s) = nextAddr s
   \<and> source (append_value c t s) = source s \<and> sourceTail (append_value c t s) = sourceTail s
   \<and> sourceOffset (append_value c t s) = sourceOffset s
   \<and> tokenOffset (append_value c t s) = tokenOffset s
   \<and> tokenLine (append_value c t s) = tokenLine s
   \<and> tokenColumn (append_value c t s) = tokenColumn s
   \<and> tokenValueOffset (append_value c t s) = tokenValueOffset s"
  by (simp add: append_value_def)

lemma flush_return_not_Continue: "flush_return s \<noteq> Continue s'"
  by (simp add: flush_return_def split: sum.splits prod.splits)

lemma continue_token_Continue:
  assumes "continue_token t c s = Continue s1"
  shows "s1 = s \<or> (\<exists>t'. s1 = append_value c t' s)"
proof (cases "tok_type t")
  case DECIMAL_NUMBER
  then show ?thesis
    using assms flush_return_not_Continue [of s s1]
    by (auto simp: continue_token_def split: if_splits sum.splits bool.splits)
qed (use assms flush_return_not_Continue [of s s1] in
      \<open>auto simp: continue_token_def split: if_splits\<close>)

lemma continue_token_frame:
  assumes "continue_token t c s = Continue s1"
  shows "heap s1 = heap s \<and> nextAddr s1 = nextAddr s \<and> source s1 = source s
       \<and> sourceTail s1 = sourceTail s \<and> sourceOffset s1 = sourceOffset s
       \<and> tokenOffset s1 = tokenOffset s \<and> tokenLine s1 = tokenLine s
       \<and> tokenColumn s1 = tokenColumn s \<and> tokenValueOffset s1 = tokenValueOffset s"
  using continue_token_Continue [OF assms] append_value_frame by auto

lemma step_Continue_frame:
  assumes "step c s = Continue s'"
  shows "heap s' = heap s \<and> nextAddr s' = nextAddr s \<and> source s' = source s
       \<and> sourceTail s' = sourceTail s \<and> sourceOffset s' = sourceOffset s + 1
       \<and> tokenOffset s' = tokenOffset s + 1"
proof (cases "token s")
  case None
  then obtain s1 where b: "begin_token c s = Inr (None, s1)" and s': "s' = advance s1"
    using assms by (auto simp: step_def split: sum.splits prod.splits option.splits)
  show ?thesis using begin_token_frame [OF b] by (simp add: s' advance_def)
next
  case (Some t)
  then obtain s1 where b: "continue_token t c s = Continue s1" and s': "s' = advance s1"
    using assms by (auto simp: step_def split: outcome.splits)
  show ?thesis using continue_token_frame [OF b] by (simp add: s' advance_def)
qed

text \<open>
  The inner loop: characters of the head chunk from \<open>sourceOffset\<close> on, until
  \<open>charCodeAt\<close> is out of bounds.
\<close>

function scan_chunk :: "lexer \<Rightarrow> outcome" where
  "scan_chunk s =
     (case source s of
        None \<Rightarrow> Throw TypeError
      | Some a \<Rightarrow>
          (case charCodeAt (chunk_value (heap s a)) (sourceOffset s) of
             None \<Rightarrow> Continue s
           | Some c \<Rightarrow>
               (case step c s of
                  Continue s' \<Rightarrow> scan_chunk s'
                | r \<Rightarrow> r)))"
  by pat_completeness auto
termination
proof (relation "measure (\<lambda>s. case source s of None \<Rightarrow> 0
         | Some a \<Rightarrow> nat (int (length (chunk_value (heap s a))) - sourceOffset s))")
  show "wf (measure (\<lambda>s. case source s of None \<Rightarrow> 0
         | Some a \<Rightarrow> nat (int (length (chunk_value (heap s a))) - sourceOffset s)))"
    by simp
next
  fix s a c s'
  assume "source s = Some a"
    and "charCodeAt (chunk_value (heap s a)) (sourceOffset s) = Some c"
    and "step c s = Continue s'"
  then show "(s', s) \<in> measure (\<lambda>s. case source s of None \<Rightarrow> 0
         | Some a \<Rightarrow> nat (int (length (chunk_value (heap s a))) - sourceOffset s))"
    using step_Continue_frame [of c s s']
    by (auto simp: charCodeAt_def split: if_splits)
qed

declare scan_chunk.simps [simp del]

text \<open>
  After the inner loop: a value that still lives in the chunk is copied into the
  token, the chunk is thrown away and the next one becomes the head.
\<close>

definition end_of_chunk :: "lexer \<Rightarrow> error + lexer" where
  "end_of_chunk s =
     (case source s of
        None \<Rightarrow> Inl TypeError
      | Some a \<Rightarrow>
          (case (if tokenValueOffset s \<noteq> - 1 then
                   (case token s of
                      None \<Rightarrow> Inl TypeError
                    | Some t \<Rightarrow>
                        Inr (s\<lparr> token := Some (t\<lparr> tok_value :=
                                   Str (substring (chunk_value (heap s a))
                                          (tokenValueOffset s) None) \<rparr>),
                                tokenValueOffset := - 1 \<rparr>))
                 else Inr s) of
             Inl e \<Rightarrow> Inl e
           | Inr s1 \<Rightarrow>
               (let s2 = s1\<lparr> source := chunk_next (heap s1 a) \<rparr>;
                    s3 = (if source s2 = None then s2\<lparr> sourceTail := None \<rparr> else s2)
                in Inr (s3\<lparr> sourceOffset := 0 \<rparr>))))"

text \<open>
  The outer loop, \<open>while (this.source !== null)\<close>.  It follows \<open>next\<close> references in
  the store, so nothing bounds it for an arbitrary store: \<open>None\<close> is the loop that
  never ends.  \<open>Continue\<close> is leaving the loop at its end.
\<close>

partial_function (option) chunks_loop :: "lexer \<Rightarrow> outcome option" where
  "chunks_loop s =
     (case source s of
        None \<Rightarrow> Some (Continue s)
      | Some a \<Rightarrow>
          (case scan_chunk s of
             Continue s1 \<Rightarrow>
               (case end_of_chunk s1 of
                  Inl e \<Rightarrow> Some (Throw e)
                | Inr s2 \<Rightarrow> chunks_loop s2)
           | r \<Rightarrow> Some r))"

declare chunks_loop.simps [code]

text \<open>\<open>next(source_ended)\<close>: a thrown error, or the token (\<open>None\<close> is \<open>null\<close>) and the lexer.\<close>

definition "next" :: "bool \<Rightarrow> lexer \<Rightarrow> (error + token option \<times> lexer) option" where
  "next source_ended s =
     (case chunks_loop s of
        None \<Rightarrow> None
      | Some (Throw e) \<Rightarrow> Some (Inl e)
      | Some (Return t s') \<Rightarrow> Some (Inr (Some t, s'))
      | Some (Continue s') \<Rightarrow>
          (if source_ended \<and> token s' \<noteq> None then
             (case flushToken s' of
                Inl e \<Rightarrow> Some (Inl e)
              | Inr (t, s'') \<Rightarrow> Some (Inr (Some t, s'')))
           else Some (Inr (None, s'))))"


section \<open>Driving the lexer (lexer-demo.js)\<close>

text \<open>
  \<open>read_tokens(L, source_ended)\<close> of the demo calls \<open>L.next(source_ended)\<close> until it
  returns \<open>null\<close>.  The demo prints each token; here they are collected, in \<open>acc\<close>,
  latest first.
\<close>

partial_function (option) read_tokens ::
    "bool \<Rightarrow> token list \<Rightarrow> lexer \<Rightarrow> (error + token list \<times> lexer) option" where
  "read_tokens source_ended acc s =
     (case next source_ended s of
        None \<Rightarrow> None
      | Some (Inl e) \<Rightarrow> Some (Inl e)
      | Some (Inr (None, s')) \<Rightarrow> Some (Inr (rev acc, s'))
      | Some (Inr (Some tok, s')) \<Rightarrow> read_tokens source_ended (tok # acc) s')"

declare read_tokens.simps [code]

text \<open>One \<open>appendSource\<close> call for each chunk of a list, in order.\<close>

fun appendSources :: "chunk list \<Rightarrow> lexer \<Rightarrow> error + lexer" where
  "appendSources [] s = Inr s"
| "appendSources (v # vs) s =
     (case appendSource v s of Inl e \<Rightarrow> Inl e | Inr s' \<Rightarrow> appendSources vs s')"

text \<open>
  A whole session: a new lexer, the chunks appended in order, then all tokens read
  with \<open>source_ended = true\<close>.
\<close>

definition tokens_of_chunks :: "chunk list \<Rightarrow> (error + token list) option" where
  "tokens_of_chunks vs =
     (case appendSources vs Lexer of
        Inl e \<Rightarrow> Some (Inl e)
      | Inr s \<Rightarrow>
          (case read_tokens True [] s of
             None \<Rightarrow> None
           | Some (Inl e) \<Rightarrow> Some (Inl e)
           | Some (Inr (toks, s')) \<Rightarrow> Some (Inr toks)))"


section \<open>What one pass of the loop body can do\<close>

text \<open>The character the inner loop reads next: \<open>None\<close> when the head chunk is exhausted.\<close>

definition cur_char :: "lexer \<Rightarrow> int option" where
  "cur_char s = (case source s of None \<Rightarrow> None
                 | Some a \<Rightarrow> charCodeAt (chunk_value (heap s a)) (sourceOffset s))"

text \<open>The token types whose value is text captured from the source.\<close>

definition capture_kind :: "TokenKind \<Rightarrow> bool" where
  "capture_kind k \<longleftrightarrow> k = SYMBOL \<or> k = DECIMAL_NUMBER \<or> k = HEX_NUMBER \<or> k = FRACTIONAL_NUMBER \<or> k = TEXT"

lemma SINGLE_TOKENS_LINE_FEED: "SINGLE_TOKENS c = Some k \<Longrightarrow> c \<noteq> LINE_FEED"
  by (auto simp: SINGLE_TOKENS_def LINE_FEED_def split: if_splits)

lemma begin_token_cases:
  assumes "begin_token c s = Inr (tok, s1)"
  shows "(\<exists>k. SINGLE_TOKENS c = Some k \<and> tok = Some (makeToken k s) \<and> s1 = s)
       \<or> (SINGLE_TOKENS c = None \<and> tok = None \<and> c = LINE_FEED
            \<and> s1 = s\<lparr> token := Some (makeToken LINE s), tokenLine := tokenLine s + 1, tokenColumn := - 1 \<rparr>)
       \<or> (SINGLE_TOKENS c = None \<and> tok = None \<and> c \<noteq> LINE_FEED
            \<and> (\<exists>k. (k = TEXT \<or> k = DECIMAL_NUMBER \<or> k = SYMBOL)
                 \<and> s1 = s\<lparr> token := Some (makeToken k s), tokenValueOffset := sourceOffset s \<rparr>))
       \<or> (SINGLE_TOKENS c = None \<and> tok = None \<and> c \<noteq> LINE_FEED \<and> is_whitespace c \<and> sourceOffset s = 0
            \<and> s1 = s\<lparr> token := Some (makeToken LINE s) \<rparr>)
       \<or> (SINGLE_TOKENS c = None \<and> tok = None \<and> c \<noteq> LINE_FEED \<and> is_whitespace c \<and> sourceOffset s \<noteq> 0
            \<and> s1 = s)"
  using assms unfolding begin_token_def
  by (cases "SINGLE_TOKENS c") (auto split: if_splits)

lemma step_None_Return:
  assumes "token s = None" and "step c s = Return t s'"
  shows "\<exists>k. SINGLE_TOKENS c = Some k \<and> t = makeToken k s \<and> s' = advance s"
proof -
  from assms obtain s1 where b: "begin_token c s = Inr (Some t, s1)" and s': "s' = advance s1"
    by (auto simp: step_def split: sum.splits prod.splits option.splits)
  from begin_token_cases [OF b] show ?thesis using s' by auto
qed

lemma step_None_Continue:
  assumes "token s = None" and "step c s = Continue s'"
  shows "\<exists>s1. begin_token c s = Inr (None, s1) \<and> s' = advance s1"
  using assms by (auto simp: step_def split: sum.splits prod.splits option.splits)

lemma flush_return_Return: "flush_return s = Return t s' \<longleftrightarrow> flushToken s = Inr (t, s')"
  by (auto simp: flush_return_def split: sum.splits prod.splits)

lemma not_space_LINE_FEED: "\<not> is_space LINE_FEED"
  by (simp add: is_space_def LINE_FEED_def)

lemma not_symbol_LINE_FEED: "\<not> is_symbol_character LINE_FEED"
  by (simp add: is_symbol_character_def LINE_FEED_def)

lemma not_digit_LINE_FEED: "\<not> is_decdigit LINE_FEED" "\<not> is_hexdigit LINE_FEED"
  by (simp_all add: is_decdigit_def is_hexdigit_def LINE_FEED_def)

lemma LINE_FEED_neq: "LINE_FEED \<noteq> SMALL_LETTER_X" "LINE_FEED \<noteq> FULL_STOP" "LINE_FEED \<noteq> PLUS_SIGN"
  "LINE_FEED \<noteq> CAPITAL_LETTER_E" "LINE_FEED \<noteq> SMALL_LETTER_E"
  by (simp_all add: LINE_FEED_def SMALL_LETTER_X_def FULL_STOP_def PLUS_SIGN_def
       CAPITAL_LETTER_E_def SMALL_LETTER_E_def)

lemma continue_token_SYMBOL:
  "tok_type t = SYMBOL \<Longrightarrow> continue_token t c s =
     (if is_symbol_character c then Continue (append_value c t s) else flush_return s)"
  by (simp add: continue_token_def)

lemma continue_token_HEX:
  "tok_type t = HEX_NUMBER \<Longrightarrow> continue_token t c s =
     (if is_hexdigit c then Continue (append_value c t s) else flush_return s)"
  by (simp add: continue_token_def)

lemma continue_token_FRACTIONAL:
  "tok_type t = FRACTIONAL_NUMBER \<Longrightarrow> continue_token t c s =
     (if c = FULL_STOP \<or> c = PLUS_SIGN \<or> c = CAPITAL_LETTER_E \<or> c = SMALL_LETTER_E
         \<or> is_decdigit c
      then Continue (append_value c t s) else flush_return s)"
  by (simp add: continue_token_def)

lemma continue_token_LINE:
  "tok_type t = LINE \<Longrightarrow> continue_token t c s =
     (if \<not> is_space c then flush_return s else Continue s)"
  by (simp add: continue_token_def)

lemma continue_token_TEXT:
  "tok_type t = TEXT \<Longrightarrow> continue_token t c s = Throw TextNotImplemented"
  by (simp add: continue_token_def)

lemma continue_token_DECIMAL:
  "tok_type t = DECIMAL_NUMBER \<Longrightarrow> continue_token t c s =
     (if c = SMALL_LETTER_X then
            (case bad_hex_prefix t s of
               Inl e \<Rightarrow> Throw e
             | Inr True \<Rightarrow> Throw UnexpectedX
             | Inr False \<Rightarrow> Continue (append_value c (t\<lparr> tok_type := HEX_NUMBER \<rparr>) s))
          else if c = FULL_STOP then
            Continue (append_value c (t\<lparr> tok_type := FRACTIONAL_NUMBER \<rparr>) s)
          else if \<not> is_decdigit c then flush_return s
          else Continue (append_value c t s))"
  by (simp add: continue_token_def)

lemma continue_token_single:
  "tok_type t \<noteq> LINE \<Longrightarrow> \<not> capture_kind (tok_type t) \<Longrightarrow>
   continue_token t c s = Throw (UnexpectedTokenType (tok_type t))"
  by (cases "tok_type t") (simp_all add: continue_token_def capture_kind_def)

lemma continue_token_Continue_cases:
  assumes "continue_token t c s = Continue s1"
  shows "c \<noteq> LINE_FEED \<and>
         ((tok_type t = LINE \<and> is_space c \<and> s1 = s)
          \<or> (\<exists>k. capture_kind (tok_type t) \<and> tok_type t \<noteq> TEXT \<and> capture_kind k \<and> k \<noteq> TEXT
                \<and> s1 = append_value c (t\<lparr> tok_type := k \<rparr>) s))"
proof -
  consider (kline) "tok_type t = LINE" | (ksym) "tok_type t = SYMBOL" | (kdec) "tok_type t = DECIMAL_NUMBER"
    | (khex) "tok_type t = HEX_NUMBER" | (kfrac) "tok_type t = FRACTIONAL_NUMBER"
    | (ktext) "tok_type t = TEXT" | (ksingle) "tok_type t \<noteq> LINE" "\<not> capture_kind (tok_type t)"
    by (auto simp: capture_kind_def)
  then show ?thesis
  proof cases
    case kline
    with assms have "is_space c" "s1 = s"
      using flush_return_not_Continue [of s s1]
      by (auto simp: continue_token_LINE split: if_splits)
    with kline not_space_LINE_FEED show ?thesis by auto
  next
    case ksym
    with assms have c: "is_symbol_character c" and s1: "s1 = append_value c t s"
      using flush_return_not_Continue [of s s1]
      by (auto simp: continue_token_SYMBOL split: if_splits)
    have t: "t\<lparr> tok_type := SYMBOL \<rparr> = t" using ksym by simp
    have "c \<noteq> LINE_FEED" using c not_symbol_LINE_FEED by auto
    moreover have "s1 = append_value c (t\<lparr> tok_type := SYMBOL \<rparr>) s" using s1 t by simp
    ultimately show ?thesis using ksym
      by (intro conjI disjI2 exI [of _ SYMBOL]) (simp_all add: capture_kind_def)
  next
    case khex
    with assms have c: "is_hexdigit c" and s1: "s1 = append_value c t s"
      using flush_return_not_Continue [of s s1]
      by (auto simp: continue_token_HEX split: if_splits)
    have t: "t\<lparr> tok_type := HEX_NUMBER \<rparr> = t" using khex by simp
    have "c \<noteq> LINE_FEED" using c not_digit_LINE_FEED by auto
    moreover have "s1 = append_value c (t\<lparr> tok_type := HEX_NUMBER \<rparr>) s" using s1 t by simp
    ultimately show ?thesis using khex
      by (intro conjI disjI2 exI [of _ HEX_NUMBER]) (simp_all add: capture_kind_def)
  next
    case kfrac
    with assms have c: "c = FULL_STOP \<or> c = PLUS_SIGN \<or> c = CAPITAL_LETTER_E \<or> c = SMALL_LETTER_E
         \<or> is_decdigit c" and s1: "s1 = append_value c t s"
      using flush_return_not_Continue [of s s1]
      by (auto simp: continue_token_FRACTIONAL split: if_splits)
    have t: "t\<lparr> tok_type := FRACTIONAL_NUMBER \<rparr> = t" using kfrac by simp
    have "c \<noteq> LINE_FEED" using c not_digit_LINE_FEED LINE_FEED_neq by auto
    moreover have "s1 = append_value c (t\<lparr> tok_type := FRACTIONAL_NUMBER \<rparr>) s" using s1 t by simp
    ultimately show ?thesis using kfrac
      by (intro conjI disjI2 exI [of _ FRACTIONAL_NUMBER]) (simp_all add: capture_kind_def)
  next
    case ktext
    with assms show ?thesis by (simp add: continue_token_TEXT)
  next
    case ksingle
    with assms show ?thesis by (simp add: continue_token_single)
  next
    case kdec
    have t: "t\<lparr> tok_type := DECIMAL_NUMBER \<rparr> = t" using kdec by simp
    consider (x) "c = SMALL_LETTER_X" | (dot) "c \<noteq> SMALL_LETTER_X" "c = FULL_STOP"
      | (digit) "c \<noteq> SMALL_LETTER_X" "c \<noteq> FULL_STOP" "is_decdigit c"
      | (other) "c \<noteq> SMALL_LETTER_X" "c \<noteq> FULL_STOP" "\<not> is_decdigit c"
      by auto
    then show ?thesis
    proof cases
      case x
      with assms kdec have s1: "s1 = append_value c (t\<lparr> tok_type := HEX_NUMBER \<rparr>) s"
        by (auto simp: continue_token_DECIMAL split: sum.splits bool.splits)
      have "c \<noteq> LINE_FEED" using x LINE_FEED_neq by auto
      then show ?thesis using kdec s1
        by (intro conjI disjI2 exI [of _ HEX_NUMBER]) (simp_all add: capture_kind_def)
    next
      case dot
      with assms kdec have s1: "s1 = append_value c (t\<lparr> tok_type := FRACTIONAL_NUMBER \<rparr>) s"
        by (auto simp: continue_token_DECIMAL)
      have "c \<noteq> LINE_FEED" using dot LINE_FEED_neq by auto
      then show ?thesis using kdec s1
        by (intro conjI disjI2 exI [of _ FRACTIONAL_NUMBER]) (simp_all add: capture_kind_def)
    next
      case digit
      with assms kdec have "s1 = append_value c t s"
        by (auto simp: continue_token_DECIMAL)
      then have s1: "s1 = append_value c (t\<lparr> tok_type := DECIMAL_NUMBER \<rparr>) s" using t by simp
      have "c \<noteq> LINE_FEED" using digit not_digit_LINE_FEED by auto
      then show ?thesis using kdec s1
        by (intro conjI disjI2 exI [of _ DECIMAL_NUMBER]) (simp_all add: capture_kind_def)
    next
      case other
      with assms kdec show ?thesis
        using flush_return_not_Continue [of s s1] by (auto simp: continue_token_DECIMAL)
    qed
  qed
qed

lemma continue_token_Return_cases:
  assumes "continue_token t c s = Return r s1"
  shows "flushToken s = Inr (r, s1) \<and> tok_type t \<noteq> TEXT
       \<and> (tok_type t = LINE \<or> capture_kind (tok_type t))
       \<and> (tok_type t = LINE \<longrightarrow> \<not> is_space c)
       \<and> (tok_type t = SYMBOL \<longrightarrow> \<not> is_symbol_character c)
       \<and> (tok_type t = DECIMAL_NUMBER \<longrightarrow> \<not> is_decdigit c \<and> c \<noteq> SMALL_LETTER_X \<and> c \<noteq> FULL_STOP)
       \<and> (tok_type t = HEX_NUMBER \<longrightarrow> \<not> is_hexdigit c)
       \<and> (tok_type t = FRACTIONAL_NUMBER \<longrightarrow> \<not> is_decdigit c \<and> c \<noteq> FULL_STOP \<and> c \<noteq> PLUS_SIGN
             \<and> c \<noteq> CAPITAL_LETTER_E \<and> c \<noteq> SMALL_LETTER_E)"
proof -
  consider (kline) "tok_type t = LINE" | (ksym) "tok_type t = SYMBOL" | (kdec) "tok_type t = DECIMAL_NUMBER"
    | (khex) "tok_type t = HEX_NUMBER" | (kfrac) "tok_type t = FRACTIONAL_NUMBER"
    | (ktext) "tok_type t = TEXT" | (ksingle) "tok_type t \<noteq> LINE" "\<not> capture_kind (tok_type t)"
    by (auto simp: capture_kind_def)
  then show ?thesis
  proof cases
    case kline
    with assms show ?thesis
      by (auto simp: continue_token_LINE flush_return_Return split: if_splits)
  next
    case ksym
    with assms show ?thesis
      by (auto simp: continue_token_SYMBOL flush_return_Return capture_kind_def split: if_splits)
  next
    case khex
    with assms show ?thesis
      by (auto simp: continue_token_HEX flush_return_Return capture_kind_def split: if_splits)
  next
    case kfrac
    with assms have "flush_return s = Return r s1 \<and> \<not> (c = FULL_STOP \<or> c = PLUS_SIGN \<or> c = CAPITAL_LETTER_E \<or> c = SMALL_LETTER_E
         \<or> is_decdigit c)"
      by (simp add: continue_token_FRACTIONAL split: if_splits)
    with kfrac show ?thesis
      by (simp add: flush_return_Return capture_kind_def)
  next
    case ktext
    with assms show ?thesis by (simp add: continue_token_TEXT)
  next
    case ksingle
    with assms show ?thesis by (simp add: continue_token_single)
  next
    case kdec
    with assms have "flush_return s = Return r s1 \<and> c \<noteq> SMALL_LETTER_X \<and> c \<noteq> FULL_STOP \<and> \<not> is_decdigit c"
      by (simp add: continue_token_DECIMAL split: if_splits sum.splits bool.splits)
    with kdec show ?thesis
      by (simp add: flush_return_Return capture_kind_def)
  qed
qed

lemma step_Some_Continue:
  assumes "token s = Some t" and "step c s = Continue s'"
  shows "\<exists>s1. continue_token t c s = Continue s1 \<and> s' = advance s1"
  using assms by (auto simp: step_def split: outcome.splits)

lemma step_Some_Return:
  assumes "token s = Some t" and "step c s = Return r s'"
  shows "continue_token t c s = Return r s'"
  using assms by (auto simp: step_def split: outcome.splits)


section \<open>Lifting a property of the loop body to \<open>next\<close>\<close>

lemma flushToken_cases:
  assumes "flushToken s = Inr (t, s')"
  shows "\<exists>t0. token s = Some t0 \<and>
     ((tok_type t0 = LINE \<and> t = t0\<lparr> tok_value := Num (tokenOffset s - offset t0 - 1) \<rparr>
         \<and> s' = s\<lparr> token := None \<rparr>)
      \<or> (tok_type t0 \<noteq> LINE \<and> tokenValueOffset s \<noteq> - 1
         \<and> (\<exists>a. source s = Some a
              \<and> t = t0\<lparr> tok_value := Str (substring (chunk_value (heap s a))
                                          (tokenValueOffset s) (Some (sourceOffset s))) \<rparr>)
         \<and> s' = s\<lparr> token := None, tokenValueOffset := - 1 \<rparr>)
      \<or> (tok_type t0 \<noteq> LINE \<and> tokenValueOffset s = - 1 \<and> t = t0 \<and> s' = s\<lparr> token := None \<rparr>))"
  using assms unfolding flushToken_def
  by (cases "token s") (auto simp: Let_def split: if_splits option.splits)

lemma flushToken_frame:
  assumes "flushToken s = Inr (t, s')"
  shows "heap s' = heap s \<and> nextAddr s' = nextAddr s \<and> source s' = source s
       \<and> sourceTail s' = sourceTail s \<and> sourceOffset s' = sourceOffset s
       \<and> tokenOffset s' = tokenOffset s \<and> tokenLine s' = tokenLine s
       \<and> tokenColumn s' = tokenColumn s \<and> token s' = None"
  using flushToken_cases [OF assms] by auto

lemma step_Return_frame:
  assumes "step c s = Return t s'"
  shows "heap s' = heap s \<and> nextAddr s' = nextAddr s \<and> source s' = source s
       \<and> sourceTail s' = sourceTail s \<and> token s' = None"
proof (cases "token s")
  case None
  from step_None_Return [OF None assms] show ?thesis using None by (auto simp: advance_def)
next
  case (Some t0)
  from continue_token_Return_cases [OF step_Some_Return [OF Some assms]]
  have "flushToken s = Inr (t, s')" by simp
  from flushToken_frame [OF this] show ?thesis by simp
qed

lemma scan_chunk_unfold:
  "source s = Some a \<Longrightarrow> scan_chunk s =
     (case cur_char s of
        None \<Rightarrow> Continue s
      | Some c \<Rightarrow> (case step c s of Continue s' \<Rightarrow> scan_chunk s' | r \<Rightarrow> r))"
  by (subst scan_chunk.simps) (simp add: cur_char_def)

lemma scan_chunk_lift:
  assumes step: "\<And>s c s'. I s \<Longrightarrow> cur_char s = Some c \<Longrightarrow> step c s = Continue s' \<Longrightarrow> I s'"
    and ret: "\<And>s c t s'. I s \<Longrightarrow> cur_char s = Some c \<Longrightarrow> step c s = Return t s' \<Longrightarrow> Q t s'"
    and "I s" and "source s \<noteq> None"
  shows "(\<forall>t s'. scan_chunk s = Return t s' \<longrightarrow> Q t s')
       \<and> (\<forall>s'. scan_chunk s = Continue s' \<longrightarrow> I s' \<and> cur_char s' = None \<and> source s' = source s)"
  using assms(3,4)
proof (induction s rule: scan_chunk.induct)
  case (1 s)
  from "1.prems" obtain a where a: "source s = Some a" by auto
  show ?case
  proof (cases "cur_char s")
    case None
    then show ?thesis using a "1.prems" by (simp add: scan_chunk_unfold)
  next
    case (Some c)
    then have cc: "charCodeAt (chunk_value (heap s a)) (sourceOffset s) = Some c"
      using a by (simp add: cur_char_def)
    show ?thesis
    proof (cases "step c s")
      case (Throw e)
      then show ?thesis using a Some by (simp add: scan_chunk_unfold)
    next
      case (Return t s')
      then show ?thesis using a Some ret [OF "1.prems"(1) Some Return]
        by (simp add: scan_chunk_unfold)
    next
      case (Continue s1)
      have I1: "I s1" by (rule step [OF "1.prems"(1) Some Continue])
      have src: "source s1 = source s" using step_Continue_frame [OF Continue] by simp
      have "(\<forall>t s'. scan_chunk s1 = Return t s' \<longrightarrow> Q t s')
       \<and> (\<forall>s'. scan_chunk s1 = Continue s' \<longrightarrow> I s' \<and> cur_char s' = None \<and> source s' = source s1)"
        using "1.IH" [OF a cc Continue I1] src a by simp
      then show ?thesis using a Some Continue src by (simp add: scan_chunk_unfold)
    qed
  qed
qed

lemma chunks_loop_lift:
  assumes step: "\<And>as s c s'. I as s \<Longrightarrow> cur_char s = Some c \<Longrightarrow> step c s = Continue s' \<Longrightarrow> I as s'"
    and ret: "\<And>as s c t s'. I as s \<Longrightarrow> cur_char s = Some c \<Longrightarrow> step c s = Return t s' \<Longrightarrow> Q as t s'"
    and eoc: "\<And>a as s. I (a # as) s \<Longrightarrow> cur_char s = None \<Longrightarrow> \<exists>s'. end_of_chunk s = Inr s' \<and> I as s'"
    and src: "\<And>as s. I as s \<Longrightarrow> (source s = None \<longleftrightarrow> as = [])"
    and "I as s"
  shows "\<exists>r. chunks_loop s = Some r
       \<and> (\<forall>t s'. r = Return t s' \<longrightarrow> (\<exists>k. k < length as \<and> Q (drop k as) t s'))
       \<and> (\<forall>s'. r = Continue s' \<longrightarrow> I [] s')"
  using assms(5)
proof (induction as arbitrary: s)
  case Nil
  then have "source s = None" using src by blast
  then have "chunks_loop s = Some (Continue s)" by (subst chunks_loop.simps) simp
  then show ?case using Nil by simp
next
  case (Cons a as)
  then obtain b where b: "source s = Some b" using src [of "a # as" s] by auto
  have sc: "(\<forall>t s'. scan_chunk s = Return t s' \<longrightarrow> Q (a # as) t s')
       \<and> (\<forall>s'. scan_chunk s = Continue s' \<longrightarrow> I (a # as) s' \<and> cur_char s' = None \<and> source s' = source s)"
    by (rule scan_chunk_lift [where I = "I (a # as)" and Q = "Q (a # as)"])
       (use step ret Cons.prems b in auto)
  show ?case
  proof (cases "scan_chunk s")
    case (Throw e)
    then have "chunks_loop s = Some (Throw e)" using b by (subst chunks_loop.simps) simp
    then show ?thesis by simp
  next
    case (Return t s')
    then have "chunks_loop s = Some (Return t s')" using b by (subst chunks_loop.simps) simp
    moreover have "Q (drop 0 (a # as)) t s'" using sc Return by simp
    ultimately show ?thesis by (metis length_greater_0_conv list.distinct(1) outcome.inject(2) outcome.distinct(5))
  next
    case (Continue s1)
    then have I1: "I (a # as) s1" and cc: "cur_char s1 = None" using sc by auto
    from eoc [OF I1 cc] obtain s2 where e: "end_of_chunk s1 = Inr s2" and I2: "I as s2" by auto
    have cl: "chunks_loop s = chunks_loop s2"
      using b Continue e by (subst chunks_loop.simps) simp
    from Cons.IH [OF I2] obtain r where r: "chunks_loop s2 = Some r"
      and rr: "\<forall>t s'. r = Return t s' \<longrightarrow> (\<exists>k. k < length as \<and> Q (drop k as) t s')"
      and rc: "\<forall>s'. r = Continue s' \<longrightarrow> I [] s'" by auto
    have "\<forall>t s'. r = Return t s' \<longrightarrow> (\<exists>k. k < length (a # as) \<and> Q (drop k (a # as)) t s')"
    proof (intro allI impI)
      fix t s' assume "r = Return t s'"
      with rr obtain k where "k < length as" "Q (drop k as) t s'" by auto
      then have "Suc k < length (a # as) \<and> Q (drop (Suc k) (a # as)) t s'" by simp
      then show "\<exists>k. k < length (a # as) \<and> Q (drop k (a # as)) t s'" by blast
    qed
    then show ?thesis using cl r rc by auto
  qed
qed

lemma next_lift:
  assumes step: "\<And>as s c s'. I as s \<Longrightarrow> cur_char s = Some c \<Longrightarrow> step c s = Continue s' \<Longrightarrow> I as s'"
    and ret: "\<And>as s c t s'. I as s \<Longrightarrow> cur_char s = Some c \<Longrightarrow> step c s = Return t s' \<Longrightarrow> Q as t s'"
    and eoc: "\<And>a as s. I (a # as) s \<Longrightarrow> cur_char s = None \<Longrightarrow> \<exists>s'. end_of_chunk s = Inr s' \<and> I as s'"
    and src: "\<And>as s. I as s \<Longrightarrow> (source s = None \<longleftrightarrow> as = [])"
    and eos: "\<And>s t0. I [] s \<Longrightarrow> token s = Some t0 \<Longrightarrow> \<exists>t s'. flushToken s = Inr (t, s') \<and> Q [] t s'"
    and "I as s"
  shows "\<exists>r. next b s = Some r
       \<and> (\<forall>t s'. r = Inr (Some t, s') \<longrightarrow> (\<exists>k. Q (drop k as) t s'))
       \<and> (\<forall>s'. r = Inr (None, s') \<longrightarrow> I [] s' \<and> (b \<longrightarrow> token s' = None))"
proof -
  have "\<exists>r. chunks_loop s = Some r
       \<and> (\<forall>t s'. r = Return t s' \<longrightarrow> (\<exists>k. k < length as \<and> Q (drop k as) t s'))
       \<and> (\<forall>s'. r = Continue s' \<longrightarrow> I [] s')"
    using step ret eoc src assms(6) by (rule chunks_loop_lift [where I = I and Q = Q])
  then obtain r where r: "chunks_loop s = Some r"
      and rr: "\<forall>t s'. r = Return t s' \<longrightarrow> (\<exists>k. k < length as \<and> Q (drop k as) t s')"
      and rc: "\<forall>s'. r = Continue s' \<longrightarrow> I [] s'" by blast
  show ?thesis
  proof (cases r)
    case (Throw e)
    then show ?thesis using r by (simp add: next_def)
  next
    case (Return t s')
    then have "next b s = Some (Inr (Some t, s'))" using r by (simp add: next_def)
    moreover from rr Return have "\<exists>k. Q (drop k as) t s'" by auto
    ultimately show ?thesis by simp
  next
    case (Continue s1)
    then have I1: "I [] s1" using rc by simp
    show ?thesis
    proof (cases "b \<and> token s1 \<noteq> None")
      case False
      then have "next b s = Some (Inr (None, s1))" using r Continue by (auto simp: next_def)
      then show ?thesis using I1 False by auto
    next
      case True
      then obtain t0 where t0: "token s1 = Some t0" by auto
      from eos [OF I1 t0] obtain t s' where f: "flushToken s1 = Inr (t, s')" and q: "Q [] t s'" by auto
      have "next b s = Some (Inr (Some t, s'))" using r Continue True f by (simp add: next_def)
      moreover have "Q (drop (length as) as) t s'" using q by simp
      then have "\<exists>k. Q (drop k as) t s'" by (rule exI)
      ultimately show ?thesis by simp
    qed
  qed
qed


section \<open>The queue in the store, and the text it holds\<close>

text \<open>
  \<open>chain h p as\<close>: following \<open>next\<close> from the reference \<open>p\<close> visits the objects at the
  addresses \<open>as\<close>, in this order, and ends at \<open>null\<close>.
\<close>

fun chain :: "(addr \<Rightarrow> node) \<Rightarrow> addr option \<Rightarrow> addr list \<Rightarrow> bool" where
  "chain h p [] = (p = None)"
| "chain h p (a # as) = (p = Some a \<and> chain h (chunk_next (h a)) as)"

text \<open>
  The queue is well formed, with its objects at \<open>as\<close>: \<open>source\<close> is the head of the
  chain, \<open>sourceTail\<close> is its last object (\<open>null\<close> when the chain is empty), and every
  object of it has been allocated.
\<close>

definition queue_inv :: "lexer \<Rightarrow> addr list \<Rightarrow> bool" where
  "queue_inv s as \<longleftrightarrow>
     chain (heap s) (source s) as \<and> distinct as \<and> (\<forall>a \<in> set as. a < nextAddr s)
     \<and> sourceTail s = (if as = [] then None else Some (last as))"

text \<open>The chunks of the queue, head first.\<close>

definition queue :: "lexer \<Rightarrow> addr list \<Rightarrow> chunk list" where
  "queue s as = map (\<lambda>a. chunk_value (heap s a)) as"

text \<open>
  The scan position (offset, line, column) after reading characters from a position:
  every character advances the offset; a LINE FEED starts a new line at column 0, any
  other character advances the column.
\<close>

fun track :: "int \<times> int \<times> int \<Rightarrow> chunk \<Rightarrow> int \<times> int \<times> int" where
  "track p [] = p"
| "track (off, ln, col) (c # cs) =
     track (off + 1, (if c = LINE_FEED then ln + 1 else ln),
            (if c = LINE_FEED then 0 else col + 1)) cs"

definition position :: "lexer \<Rightarrow> int \<times> int \<times> int" where
  "position s = (tokenOffset s, tokenLine s, tokenColumn s)"

text \<open>The characters of a text from offset \<open>i\<close> up to, not including, offset \<open>j\<close>.\<close>

definition slice :: "chunk \<Rightarrow> int \<Rightarrow> int \<Rightarrow> chunk" where
  "slice xs i j = take (nat (j - i)) (drop (nat i) xs)"

text \<open>No token returned from now on starts before this offset.\<close>

definition low :: "lexer \<Rightarrow> int" where
  "low s = (case token s of None \<Rightarrow> tokenOffset s | Some t \<Rightarrow> offset t)"

text \<open>The character at which a token of a type being read ends.\<close>

definition terminator :: "TokenKind \<Rightarrow> int \<Rightarrow> bool" where
  "terminator k c \<longleftrightarrow>
     (k = LINE \<longrightarrow> \<not> is_space c)
     \<and> (k = SYMBOL \<longrightarrow> \<not> is_symbol_character c)
     \<and> (k = DECIMAL_NUMBER \<longrightarrow> \<not> is_decdigit c \<and> c \<noteq> SMALL_LETTER_X \<and> c \<noteq> FULL_STOP)
     \<and> (k = HEX_NUMBER \<longrightarrow> \<not> is_hexdigit c)
     \<and> (k = FRACTIONAL_NUMBER \<longrightarrow> \<not> is_decdigit c \<and> c \<noteq> FULL_STOP \<and> c \<noteq> PLUS_SIGN
             \<and> c \<noteq> CAPITAL_LETTER_E \<and> c \<noteq> SMALL_LETTER_E)"

text \<open>
  The state of the lexer against \<open>fed\<close>, all the text appended so far: the queue is
  well formed and holds the text from where the head chunk starts; \<open>tokenOffset\<close>
  characters of \<open>fed\<close> have been read and the position counters are those of that
  text.
\<close>

definition text_inv :: "chunk \<Rightarrow> addr list \<Rightarrow> lexer \<Rightarrow> bool" where
  "text_inv fed as s \<longleftrightarrow>
     queue_inv s as
     \<and> 0 \<le> sourceOffset s \<and> sourceOffset s \<le> tokenOffset s
     \<and> tokenOffset s \<le> int (length fed)
     \<and> (case as of [] \<Rightarrow> sourceOffset s = 0
         | a # _ \<Rightarrow> sourceOffset s \<le> int (length (chunk_value (heap s a))))
     \<and> drop (nat (tokenOffset s - sourceOffset s)) fed = concat (queue s as)
     \<and> position s = track (0, 0, 0) (take (nat (tokenOffset s)) fed)"

text \<open>
  The token being read, against \<open>fed\<close>: its position is that of its first character;
  a LINE token has read only spaces after its first character; a token with a
  captured value either has its text in the head chunk from \<open>tokenValueOffset\<close> on
  (deferred slice) or holds it in its value (buffered).
\<close>

definition token_ok :: "chunk \<Rightarrow> addr list \<Rightarrow> lexer \<Rightarrow> bool" where
  "token_ok fed as s =
     (case token s of
        None \<Rightarrow> tokenValueOffset s = - 1
      | Some t \<Rightarrow>
          0 \<le> offset t \<and> offset t < tokenOffset s
          \<and> (offset t, line t, column t) = track (0, 0, 0) (take (nat (offset t)) fed)
          \<and> (if tok_type t = LINE then
                tokenValueOffset s = - 1
                \<and> list_all is_space (slice fed (offset t + 1) (tokenOffset s))
              else
                capture_kind (tok_type t)
                \<and> (if tokenValueOffset s \<noteq> - 1 then
                      0 \<le> tokenValueOffset s \<and> as \<noteq> []
                      \<and> tokenOffset s - offset t = sourceOffset s - tokenValueOffset s
                    else tok_value t = Str (slice fed (offset t) (tokenOffset s)))))"

text \<open>
  Between the offset \<open>lb\<close>, where the last token returned ended, and the next token
  there is only whitespace.
\<close>

definition gap_ok :: "chunk \<Rightarrow> int \<Rightarrow> lexer \<Rightarrow> bool" where
  "gap_ok fed lb s \<longleftrightarrow>
     0 \<le> lb \<and> lb \<le> low s \<and> list_all is_whitespace (slice fed lb (low s))"

definition lexer_inv :: "chunk \<Rightarrow> int \<Rightarrow> addr list \<Rightarrow> lexer \<Rightarrow> bool" where
  "lexer_inv fed lb as s \<longleftrightarrow> text_inv fed as s \<and> token_ok fed as s \<and> gap_ok fed lb s"

text \<open>What holds of a token that \<open>next\<close> returns, and of the lexer it leaves.\<close>

definition returned_ok :: "chunk \<Rightarrow> int \<Rightarrow> addr list \<Rightarrow> token \<Rightarrow> lexer \<Rightarrow> bool" where
  "returned_ok fed lb as t s' \<longleftrightarrow>
     lexer_inv fed (tokenOffset s') as s' \<and> token s' = None
     \<and> lb \<le> offset t \<and> list_all is_whitespace (slice fed lb (offset t))
     \<and> 0 \<le> offset t \<and> offset t < tokenOffset s'
     \<and> (offset t, line t, column t) = track (0, 0, 0) (take (nat (offset t)) fed)
     \<and> (case drop (nat (tokenOffset s')) fed of [] \<Rightarrow> True | c # _ \<Rightarrow> terminator (tok_type t) c)
     \<and> (if tok_type t = LINE then
           tok_value t = Num (tokenOffset s' - offset t - 1)
           \<and> list_all is_space (slice fed (offset t + 1) (tokenOffset s'))
         else if capture_kind (tok_type t) then
           tok_value t = Str (slice fed (offset t) (tokenOffset s'))
         else
           tokenOffset s' = offset t + 1 \<and> tok_value t = Undefined
           \<and> SINGLE_TOKENS (fed ! nat (offset t)) = Some (tok_type t))"

subsection \<open>Lists and positions\<close>

lemma track_append: "track p (xs @ ys) = track (track p xs) ys"
proof (induction xs arbitrary: p)
  case Nil
  show ?case by simp
next
  case (Cons x xs)
  obtain a b c where p: "p = (a, b, c)" by (cases p)
  show ?case unfolding p by (simp add: Cons.IH)
qed

lemma track_snoc:
  "track (track (0, 0, 0) xs) [c] =
     (fst (track (0, 0, 0) xs) + 1,
      (if c = LINE_FEED then fst (snd (track (0, 0, 0) xs)) + 1 else fst (snd (track (0, 0, 0) xs))),
      (if c = LINE_FEED then 0 else snd (snd (track (0, 0, 0) xs)) + 1))"
  by (cases "track (0, 0, 0) xs") simp

lemma take_nat_Suc:
  assumes "0 \<le> n" and "n < int (length xs)"
  shows "take (nat (n + 1)) xs = take (nat n) xs @ [xs ! nat n]"
proof -
  have "nat (n + 1) = Suc (nat n)" using assms by simp
  moreover have "nat n < length xs" using assms by simp
  ultimately show ?thesis by (simp add: take_Suc_conv_app_nth)
qed

lemma slice_snoc:
  assumes "0 \<le> i" and "i \<le> n" and "n < int (length xs)"
  shows "slice xs i (n + 1) = slice xs i n @ [xs ! nat n]"
proof -
  have a: "nat (n + 1 - i) = Suc (nat (n - i))" using assms by simp
  have b: "nat (n - i) < length (drop (nat i) xs)" using assms by simp
  have c: "drop (nat i) xs ! nat (n - i) = xs ! nat n"
    using assms by (simp add: nat_diff_distrib nat_le_eq_zle)
  show ?thesis unfolding slice_def a using b c by (simp add: take_Suc_conv_app_nth)
qed

lemma slice_empty: "slice xs i i = []"
  by (simp add: slice_def)

lemma slice_append_left:
  assumes "0 \<le> i" and "j \<le> int (length xs)"
  shows "slice (xs @ ys) i j = slice xs i j"
proof -
  have "nat (j - i) \<le> length xs - nat i" using assms by arith
  then show ?thesis by (simp add: slice_def)
qed

lemma take_append_left:
  assumes "n \<le> int (length xs)"
  shows "take (nat n) (xs @ ys) = take (nat n) xs"
  using assms by simp


subsection \<open>The loop body keeps the text invariant\<close>

lemma chain_source: "chain h p as \<Longrightarrow> (p = None \<longleftrightarrow> as = [])"
  by (cases as) auto

lemma queue_inv_source: "queue_inv s as \<Longrightarrow> (source s = None \<longleftrightarrow> as = [])"
  unfolding queue_inv_def using chain_source by blast

lemma queue_inv_head: "queue_inv s (a # as) \<Longrightarrow> source s = Some a"
  by (simp add: queue_inv_def)

lemma queue_inv_cong:
  assumes "heap s' = heap s" "nextAddr s' = nextAddr s" "source s' = source s"
    "sourceTail s' = sourceTail s"
  shows "queue_inv s' as = queue_inv s as"
  using assms by (simp add: queue_inv_def)

lemma queue_cong: "heap s' = heap s \<Longrightarrow> queue s' as = queue s as"
  by (simp add: queue_def)

lemma text_inv_cong:
  assumes "heap s' = heap s" "nextAddr s' = nextAddr s" "source s' = source s"
    "sourceTail s' = sourceTail s" "sourceOffset s' = sourceOffset s"
    "tokenOffset s' = tokenOffset s" "tokenLine s' = tokenLine s"
    "tokenColumn s' = tokenColumn s"
  shows "text_inv fed as s' = text_inv fed as s"
  using assms queue_inv_cong [OF assms(1-4), of as] queue_cong [OF assms(1), of as]
  by (cases as) (simp_all add: text_inv_def position_def)

lemma cur_char_Some:
  assumes "text_inv fed as s" and "cur_char s = Some c"
  shows "\<exists>a as'. as = a # as' \<and> source s = Some a
       \<and> sourceOffset s < int (length (chunk_value (heap s a)))
       \<and> c = chunk_value (heap s a) ! nat (sourceOffset s)
       \<and> tokenOffset s < int (length fed) \<and> fed ! nat (tokenOffset s) = c"
proof -
  from assms(2) obtain b where b: "source s = Some b"
    and cc: "charCodeAt (chunk_value (heap s b)) (sourceOffset s) = Some c"
    by (auto simp: cur_char_def split: option.splits)
  have q: "queue_inv s as" using assms(1) by (simp add: text_inv_def)
  with b obtain a as' where as: "as = a # as'" using queue_inv_source [OF q] by (cases as) auto
  have ab: "a = b" using queue_inv_head q b as by fastforce
  define v where "v = chunk_value (heap s a)"
  define k where "k = sourceOffset s"
  define n where "n = tokenOffset s"
  have k: "0 \<le> k" "k < int (length v)" and c: "c = v ! nat k"
    using cc ab by (auto simp: charCodeAt_def v_def k_def split: if_splits)
  have kn: "k \<le> n" and d: "drop (nat (n - k)) fed = v @ concat (queue s as')"
    using assms(1) as by (auto simp: text_inv_def queue_def v_def k_def n_def)
  have len: "length fed - nat (n - k) = length v + length (concat (queue s as'))"
    using arg_cong [OF d, of length] by simp
  then have n: "n < int (length fed)" using k kn by linarith
  have "fed ! nat n = drop (nat (n - k)) fed ! nat k"
  proof -
    have "nat (n - k) + nat k = nat n" using k kn by linarith
    moreover have "nat (n - k) \<le> length fed" using n k kn by linarith
    ultimately show ?thesis by (simp add: nth_drop)
  qed
  also have "\<dots> = v ! nat k"
  proof -
    have "nat k < length v" using k by linarith
    then show ?thesis unfolding d by (simp add: nth_append)
  qed
  finally have "fed ! nat n = c" using c by simp
  then show ?thesis using as ab b k c n by (auto simp: v_def k_def n_def)
qed

lemma step_Continue_position:
  assumes "step c s = Continue s'"
  shows "position s' = track (position s) [c]"
proof (cases "token s")
  case None
  from step_None_Continue [OF None assms] obtain s1
    where b: "begin_token c s = Inr (None, s1)" and s': "s' = advance s1" by auto
  from begin_token_cases [OF b] show ?thesis
    unfolding s' by (auto simp: position_def advance_def)
next
  case (Some t)
  from step_Some_Continue [OF Some assms] obtain s1
    where b: "continue_token t c s = Continue s1" and s': "s' = advance s1" by auto
  from continue_token_Continue_cases [OF b] have c: "c \<noteq> LINE_FEED" by simp
  from continue_token_frame [OF b] show ?thesis
    unfolding s' using c by (simp add: position_def advance_def)
qed

lemma text_inv_advance:
  assumes inv: "text_inv fed as s" and cc: "cur_char s = Some c"
    and fr: "heap s' = heap s" "nextAddr s' = nextAddr s" "source s' = source s"
      "sourceTail s' = sourceTail s"
    and so: "sourceOffset s' = sourceOffset s + 1" and to: "tokenOffset s' = tokenOffset s + 1"
    and pos: "position s' = track (position s) [c]"
  shows "text_inv fed as s'"
proof -
  from cur_char_Some [OF inv cc] obtain a as' where as: "as = a # as'"
    and k: "sourceOffset s < int (length (chunk_value (heap s a)))"
    and n: "tokenOffset s < int (length fed)" and c: "fed ! nat (tokenOffset s) = c" by auto
  have n0: "0 \<le> tokenOffset s" using inv by (simp add: text_inv_def)
  have "position s' = track (0, 0, 0) (take (nat (tokenOffset s')) fed)"
    using inv pos by (simp add: text_inv_def to take_nat_Suc [OF n0 n] c track_append)
  then show ?thesis
    using inv k n as queue_inv_cong [OF fr, of as] queue_cong [OF fr(1), of as]
    by (simp add: text_inv_def so to fr)
qed

lemma text_inv_step_Continue:
  assumes "text_inv fed as s" and "cur_char s = Some c" and "step c s = Continue s'"
  shows "text_inv fed as s'"
  using step_Continue_frame [OF assms(3)] step_Continue_position [OF assms(3)]
  by (intro text_inv_advance [OF assms(1,2)]) simp_all

lemma text_inv_step_Return:
  assumes "text_inv fed as s" and "cur_char s = Some c" and "step c s = Return t s'"
  shows "text_inv fed as s'"
proof (cases "token s")
  case None
  from step_None_Return [OF None assms(3)] obtain k
    where k: "SINGLE_TOKENS c = Some k" and s': "s' = advance s" by auto
  have "c \<noteq> LINE_FEED" using SINGLE_TOKENS_LINE_FEED [OF k] .
  then have "position s' = track (position s) [c]" by (simp add: s' position_def advance_def)
  then show ?thesis
    by (intro text_inv_advance [OF assms(1,2)]) (simp_all add: s' advance_def)
next
  case (Some t0)
  from continue_token_Return_cases [OF step_Some_Return [OF Some assms(3)]]
  have "flushToken s = Inr (t, s')" by simp
  from flushToken_frame [OF this] show ?thesis
    using assms(1) by (subst text_inv_cong [of s' s]) simp_all
qed


subsection \<open>The loop body keeps the token invariant\<close>

lemma token_ok_begin:
  assumes inv: "text_inv fed as s" and cc: "cur_char s = Some c" and tn: "token s = None"
    and ok: "token_ok fed as s" and lb: "gap_ok fed lb s"
    and b: "begin_token c s = Inr (None, s1)"
  shows "token_ok fed as (advance s1) \<and> gap_ok fed lb (advance s1)"
proof -
  from cur_char_Some [OF inv cc] obtain a as' where as: "as = a # as'"
    and n: "tokenOffset s < int (length fed)" and c: "fed ! nat (tokenOffset s) = c" by auto
  have tvo: "tokenValueOffset s = - 1" using ok tn by (simp add: token_ok_def)
  have k0: "0 \<le> sourceOffset s" and n0: "0 \<le> tokenOffset s"
    and pos: "(tokenOffset s, tokenLine s, tokenColumn s)
                = track (0, 0, 0) (take (nat (tokenOffset s)) fed)"
    using inv by (auto simp: text_inv_def position_def)
  have lbn: "0 \<le> lb" "lb \<le> tokenOffset s"
    "list_all is_whitespace (slice fed lb (tokenOffset s))"
    using lb tn by (simp_all add: gap_ok_def low_def)
  from begin_token_cases [OF b]
  consider (lf) "s1 = s\<lparr> token := Some (makeToken LINE s), tokenLine := tokenLine s + 1, tokenColumn := - 1 \<rparr>"
    | (cap) k where "k = TEXT \<or> k = DECIMAL_NUMBER \<or> k = SYMBOL"
        "s1 = s\<lparr> token := Some (makeToken k s), tokenValueOffset := sourceOffset s \<rparr>"
    | (virt) "s1 = s\<lparr> token := Some (makeToken LINE s) \<rparr>"
    | (skip) "is_whitespace c" "s1 = s"
    by auto
  then show ?thesis
  proof cases
    case lf
    show ?thesis unfolding lf
      using tvo n0 pos lbn
      by (simp add: token_ok_def gap_ok_def advance_def makeToken_def low_def slice_empty)
  next
    case cap
    have "capture_kind k \<and> k \<noteq> LINE" using cap(1) by (auto simp: capture_kind_def)
    then show ?thesis unfolding cap(2)
      using k0 n0 pos lbn as
      by (simp add: token_ok_def gap_ok_def advance_def makeToken_def low_def)
  next
    case virt
    show ?thesis unfolding virt
      using tvo n0 pos lbn
      by (simp add: token_ok_def gap_ok_def advance_def makeToken_def low_def slice_empty)
  next
    case skip
    have "slice fed lb (tokenOffset s + 1) = slice fed lb (tokenOffset s) @ [c]"
      using slice_snoc [of lb "tokenOffset s" fed] lbn n c by simp
    then show ?thesis unfolding skip(2)
      using tvo tn lbn skip(1) by (simp add: token_ok_def gap_ok_def advance_def low_def)
  qed
qed

lemma token_ok_continue:
  assumes inv: "text_inv fed as s" and cc: "cur_char s = Some c" and ts: "token s = Some t"
    and ok: "token_ok fed as s" and lb: "gap_ok fed lb s"
    and b: "continue_token t c s = Continue s1"
  shows "token_ok fed as (advance s1) \<and> gap_ok fed lb (advance s1)"
proof -
  from cur_char_Some [OF inv cc] obtain a as' where as: "as = a # as'"
    and n: "tokenOffset s < int (length fed)" and c: "fed ! nat (tokenOffset s) = c" by auto
  have off: "0 \<le> offset t" "offset t < tokenOffset s"
    and tpos: "(offset t, line t, column t) = track (0, 0, 0) (take (nat (offset t)) fed)"
    using ok ts by (auto simp: token_ok_def)
  have lbo: "0 \<le> lb" "lb \<le> offset t" "list_all is_whitespace (slice fed lb (offset t))"
    using lb ts by (simp_all add: gap_ok_def low_def)
  from continue_token_Continue_cases [OF b]
  consider (ln) "tok_type t = LINE" "is_space c" "s1 = s"
    | (cap) k where "capture_kind (tok_type t)" "tok_type t \<noteq> TEXT" "capture_kind k" "k \<noteq> TEXT"
        "s1 = append_value c (t\<lparr> tok_type := k \<rparr>) s"
    by auto
  then show ?thesis
  proof cases
    case ln
    have sp: "tokenValueOffset s = - 1"
      "list_all is_space (slice fed (offset t + 1) (tokenOffset s))"
      using ok ts ln(1) by (auto simp: token_ok_def)
    have "slice fed (offset t + 1) (tokenOffset s + 1)
            = slice fed (offset t + 1) (tokenOffset s) @ [c]"
      using slice_snoc [of "offset t + 1" "tokenOffset s" fed] off n c by simp
    then show ?thesis unfolding ln(3)
      using ts off tpos lbo ln(1,2) sp
      by (simp add: token_ok_def gap_ok_def advance_def low_def)
  next
    case cap
    have nl: "tok_type t \<noteq> LINE" "k \<noteq> LINE" using cap(1,3) by (auto simp: capture_kind_def)
    show ?thesis
    proof (cases "tokenValueOffset s = - 1")
      case True
      then have v: "tok_value t = Str (slice fed (offset t) (tokenOffset s))"
        using ok ts nl by (simp add: token_ok_def)
      have "slice fed (offset t) (tokenOffset s + 1) = slice fed (offset t) (tokenOffset s) @ [c]"
        using slice_snoc [of "offset t" "tokenOffset s" fed] off n c by simp
      then show ?thesis unfolding cap(5)
        using True v off tpos lbo nl cap(3)
        by (simp add: token_ok_def gap_ok_def advance_def low_def append_value_def)
    next
      case False
      then have v: "0 \<le> tokenValueOffset s"
        "tokenOffset s - offset t = sourceOffset s - tokenValueOffset s"
        using ok ts nl by (auto simp: token_ok_def)
      show ?thesis unfolding cap(5)
        using False v off tpos lbo nl cap(3) as
        by (simp add: token_ok_def gap_ok_def advance_def low_def append_value_def)
    qed
  qed
qed

lemma lexer_inv_step_Continue:
  assumes inv: "lexer_inv fed lb as s" and cc: "cur_char s = Some c"
    and st: "step c s = Continue s'"
  shows "lexer_inv fed lb as s'"
proof -
  have ti: "text_inv fed as s" and ok: "token_ok fed as s" and lb: "gap_ok fed lb s"
    using inv by (auto simp: lexer_inv_def)
  have ti': "text_inv fed as s'" by (rule text_inv_step_Continue [OF ti cc st])
  have "token_ok fed as s' \<and> gap_ok fed lb s'"
  proof (cases "token s")
    case None
    from step_None_Continue [OF None st] obtain s1
      where b: "begin_token c s = Inr (None, s1)" and s': "s' = advance s1" by auto
    show ?thesis unfolding s' by (rule token_ok_begin [OF ti cc None ok lb b])
  next
    case (Some t)
    from step_Some_Continue [OF Some st] obtain s1
      where b: "continue_token t c s = Continue s1" and s': "s' = advance s1" by auto
    show ?thesis unfolding s' by (rule token_ok_continue [OF ti cc Some ok lb b])
  qed
  then show ?thesis using ti' by (simp add: lexer_inv_def)
qed


subsection \<open>Flushing a token, and leaving a chunk\<close>

lemma SINGLE_TOKENS_kind:
  assumes "SINGLE_TOKENS c = Some k"
  shows "k \<noteq> LINE \<and> \<not> capture_kind k \<and> terminator k c'"
  using assms
  by (auto simp: SINGLE_TOKENS_def capture_kind_def terminator_def split: if_splits)

lemma substring_slice:
  assumes "0 \<le> a" and "a \<le> b" and "b \<le> int (length v)"
  shows "substring v a (Some b) = slice v a b"
  using assms by (simp add: substring_def slice_def Let_def min_def max_def)

lemma substring_rest:
  assumes "0 \<le> a" and "a \<le> int (length v)"
  shows "substring v a None = slice v a (int (length v))"
  using assms by (simp add: substring_def slice_def Let_def min_def max_def)

lemma slice_in_chunk:
  assumes d: "drop (nat m) fed = v @ r" and m: "0 \<le> m" and a: "0 \<le> a" and ab: "a \<le> b"
    and b: "b \<le> int (length v)"
  shows "slice fed (m + a) (m + b) = slice v a b"
proof -
  have "drop (nat (m + a)) fed = drop (nat a) (drop (nat m) fed)"
    using m a by (simp add: nat_add_distrib add.commute)
  also have "\<dots> = drop (nat a) v @ r" using d a ab b by simp
  finally have "slice fed (m + a) (m + b) = take (nat (b - a)) (drop (nat a) v @ r)"
    by (simp add: slice_def)
  also have "\<dots> = take (nat (b - a)) (drop (nat a) v)"
  proof -
    have "nat (b - a) \<le> length (drop (nat a) v)" using a ab b by simp
    then show ?thesis by simp
  qed
  finally show ?thesis by (simp add: slice_def)
qed

lemma flush_returned_ok:
  assumes inv: "lexer_inv fed lb as s" and ts: "token s = Some t0"
    and tm: "case drop (nat (tokenOffset s)) fed of [] \<Rightarrow> True
             | c # _ \<Rightarrow> terminator (tok_type t0) c"
  shows "\<exists>t s'. flushToken s = Inr (t, s') \<and> returned_ok fed lb as t s'"
proof -
  have ti: "text_inv fed as s" and ok: "token_ok fed as s" and lb: "gap_ok fed lb s"
    using inv by (auto simp: lexer_inv_def)
  have off: "0 \<le> offset t0" "offset t0 < tokenOffset s"
    and tpos: "(offset t0, line t0, column t0) = track (0, 0, 0) (take (nat (offset t0)) fed)"
    using ok ts by (auto simp: token_ok_def)
  have lbo: "lb \<le> offset t0" "list_all is_whitespace (slice fed lb (offset t0))"
    using lb ts by (simp_all add: gap_ok_def low_def)
  have n0: "0 \<le> tokenOffset s" using ti by (simp add: text_inv_def)
  consider (ln) "tok_type t0 = LINE"
    | (buf) "tok_type t0 \<noteq> LINE" "tokenValueOffset s = - 1"
    | (slc) "tok_type t0 \<noteq> LINE" "tokenValueOffset s \<noteq> - 1"
    by auto
  then show ?thesis
  proof cases
    case ln
    define t where "t = t0\<lparr> tok_value := Num (tokenOffset s - offset t0 - 1) \<rparr>"
    define s' where "s' = s\<lparr> token := None \<rparr>"
    have f: "flushToken s = Inr (t, s')" using ts ln by (simp add: flushToken_def t_def s'_def)
    have sp: "tokenValueOffset s = - 1"
      "list_all is_space (slice fed (offset t0 + 1) (tokenOffset s))"
      using ok ts ln by (auto simp: token_ok_def)
    have ti': "text_inv fed as s'" using ti by (subst text_inv_cong [of s' s]) (simp_all add: s'_def)
    have "lexer_inv fed (tokenOffset s') as s'"
      using ti' sp n0 by (simp add: lexer_inv_def token_ok_def gap_ok_def low_def slice_empty s'_def)
    then have "returned_ok fed lb as t s'"
      using off tpos lbo ln sp tm by (simp add: returned_ok_def s'_def t_def cong: list.case_cong)
    with f show ?thesis by blast
  next
    case buf
    define s' where "s' = s\<lparr> token := None \<rparr>"
    have f: "flushToken s = Inr (t0, s')" using ts buf by (simp add: flushToken_def s'_def)
    have ck: "capture_kind (tok_type t0)"
      and v: "tok_value t0 = Str (slice fed (offset t0) (tokenOffset s))"
      using ok ts buf by (auto simp: token_ok_def)
    have ti': "text_inv fed as s'" using ti by (subst text_inv_cong [of s' s]) (simp_all add: s'_def)
    have "lexer_inv fed (tokenOffset s') as s'"
      using ti' buf n0 by (simp add: lexer_inv_def token_ok_def gap_ok_def low_def slice_empty s'_def)
    then have "returned_ok fed lb as t0 s'"
      using off tpos lbo buf ck v tm by (simp add: returned_ok_def s'_def)
    with f show ?thesis by blast
  next
    case slc
    have ck: "capture_kind (tok_type t0)" and tv: "0 \<le> tokenValueOffset s" and ne: "as \<noteq> []"
      and eq: "tokenOffset s - offset t0 = sourceOffset s - tokenValueOffset s"
      using ok ts slc by (auto simp: token_ok_def)
    from ne obtain a as' where as: "as = a # as'" by (cases as) auto
    have src: "source s = Some a" using ti as queue_inv_head by (auto simp: text_inv_def)
    define v where "v = chunk_value (heap s a)"
    define t where "t = t0\<lparr> tok_value := Str (substring v (tokenValueOffset s) (Some (sourceOffset s))) \<rparr>"
    define s' where "s' = s\<lparr> token := None, tokenValueOffset := - 1 \<rparr>"
    have f: "flushToken s = Inr (t, s')"
      using ts slc src by (simp add: flushToken_def t_def s'_def v_def)
    have k: "sourceOffset s \<le> int (length v)" "sourceOffset s \<le> tokenOffset s"
      and d: "drop (nat (tokenOffset s - sourceOffset s)) fed = v @ concat (queue s as')"
      using ti as by (auto simp: text_inv_def v_def queue_def)
    have le: "tokenValueOffset s \<le> sourceOffset s" using eq off by linarith
    have "substring v (tokenValueOffset s) (Some (sourceOffset s))
            = slice v (tokenValueOffset s) (sourceOffset s)"
      by (rule substring_slice [OF tv le k(1)])
    also have "\<dots> = slice fed (tokenOffset s - sourceOffset s + tokenValueOffset s)
                         (tokenOffset s - sourceOffset s + sourceOffset s)"
      using slice_in_chunk [OF d _ tv le k(1)] k(2) by simp
    also have "\<dots> = slice fed (offset t0) (tokenOffset s)"
    proof -
      have "tokenOffset s - sourceOffset s + tokenValueOffset s = offset t0" using eq by linarith
      then show ?thesis by simp
    qed
    finally have val: "tok_value t = Str (slice fed (offset t0) (tokenOffset s))"
      by (simp add: t_def)
    have ti': "text_inv fed as s'" using ti by (subst text_inv_cong [of s' s]) (simp_all add: s'_def)
    have "lexer_inv fed (tokenOffset s') as s'"
      using ti' n0 by (simp add: lexer_inv_def token_ok_def gap_ok_def low_def slice_empty s'_def)
    then have "returned_ok fed lb as t s'"
      using off tpos lbo slc(1) ck val tm by (simp add: returned_ok_def s'_def t_def cong: list.case_cong)
    with f show ?thesis by blast
  qed
qed

lemma lexer_inv_step_Return:
  assumes inv: "lexer_inv fed lb as s" and cc: "cur_char s = Some c"
    and st: "step c s = Return t s'"
  shows "returned_ok fed lb as t s'"
proof -
  have ti: "text_inv fed as s" and ok: "token_ok fed as s" and lb: "gap_ok fed lb s"
    using inv by (auto simp: lexer_inv_def)
  from cur_char_Some [OF ti cc] have n: "tokenOffset s < int (length fed)"
    and c: "fed ! nat (tokenOffset s) = c" by auto
  have n0: "0 \<le> tokenOffset s" using ti by (simp add: text_inv_def)
  show ?thesis
  proof (cases "token s")
    case None
    from step_None_Return [OF None st] obtain k
      where k: "SINGLE_TOKENS c = Some k" and t: "t = makeToken k s" and s': "s' = advance s"
      by auto
    have ti': "text_inv fed as s'" by (rule text_inv_step_Return [OF ti cc st])
    have tvo: "tokenValueOffset s = - 1" using ok None by (simp add: token_ok_def)
    have lbn: "lb \<le> tokenOffset s" "list_all is_whitespace (slice fed lb (tokenOffset s))"
      using lb None by (simp_all add: gap_ok_def low_def)
    have pos: "(tokenOffset s, tokenLine s, tokenColumn s)
                = track (0, 0, 0) (take (nat (tokenOffset s)) fed)"
      using ti by (auto simp: text_inv_def position_def)
    have kk: "k \<noteq> LINE" "\<not> capture_kind k" "\<And>c'. terminator k c'"
      using SINGLE_TOKENS_kind [OF k] by auto
    have "lexer_inv fed (tokenOffset s') as s'"
      using ti' None tvo n0
      by (simp add: lexer_inv_def token_ok_def gap_ok_def low_def slice_empty s' advance_def)
    moreover have "case drop (nat (tokenOffset s')) fed of [] \<Rightarrow> True
             | c' # _ \<Rightarrow> terminator (tok_type t) c'"
      using kk(3) by (simp add: t makeToken_def split: list.splits)
    moreover have "token s' = None" "tokenOffset s' = offset t + 1" "tok_type t = k"
      "tok_value t = Undefined" "offset t = tokenOffset s"
      "(offset t, line t, column t) = track (0, 0, 0) (take (nat (offset t)) fed)"
      using None pos by (simp_all add: s' t advance_def makeToken_def)
    ultimately show ?thesis
      using lbn n0 kk(1,2) k c
      by (simp add: returned_ok_def)
  next
    case (Some t0)
    from continue_token_Return_cases [OF step_Some_Return [OF Some st]]
    have f: "flushToken s = Inr (t, s')"
      and tm: "terminator (tok_type t0) c" by (auto simp: terminator_def)
    have "nat (tokenOffset s) < length fed" using n n0 by linarith
    from Cons_nth_drop_Suc [OF this]
    have "drop (nat (tokenOffset s)) fed = c # drop (Suc (nat (tokenOffset s))) fed"
      using c by simp
    then have "case drop (nat (tokenOffset s)) fed of [] \<Rightarrow> True
             | c # _ \<Rightarrow> terminator (tok_type t0) c" using tm by simp
    from flush_returned_ok [OF inv Some this] f show ?thesis by auto
  qed
qed

lemma lexer_inv_eos:
  assumes inv: "lexer_inv fed lb [] s" and ts: "token s = Some t0"
  shows "\<exists>t s'. flushToken s = Inr (t, s') \<and> returned_ok fed lb [] t s'"
proof -
  have "drop (nat (tokenOffset s)) fed = []"
    using inv by (auto simp: lexer_inv_def text_inv_def queue_def)
  then have "case drop (nat (tokenOffset s)) fed of [] \<Rightarrow> True
             | c # _ \<Rightarrow> terminator (tok_type t0) c" by simp
  from flush_returned_ok [OF inv ts this] show ?thesis .
qed

lemma lexer_inv_source: "lexer_inv fed lb as s \<Longrightarrow> (source s = None \<longleftrightarrow> as = [])"
  using queue_inv_source by (simp add: lexer_inv_def text_inv_def)


lemma cur_char_None:
  assumes "text_inv fed (a # as) s" and "cur_char s = None"
  shows "source s = Some a \<and> sourceOffset s = int (length (chunk_value (heap s a)))"
proof -
  have src: "source s = Some a" using assms(1) queue_inv_head by (auto simp: text_inv_def)
  have "0 \<le> sourceOffset s" "sourceOffset s \<le> int (length (chunk_value (heap s a)))"
    using assms(1) by (auto simp: text_inv_def)
  moreover have "charCodeAt (chunk_value (heap s a)) (sourceOffset s) = None"
    using assms(2) src by (simp add: cur_char_def)
  ultimately show ?thesis using src by (auto simp: charCodeAt_def split: if_splits)
qed

lemma queue_inv_tail:
  assumes "queue_inv s (a # as)"
    and "heap s' = heap s" "nextAddr s' = nextAddr s" "source s' = chunk_next (heap s a)"
    and "sourceTail s' = (if chunk_next (heap s a) = None then None else sourceTail s)"
  shows "queue_inv s' as"
proof -
  have ch: "chain (heap s) (chunk_next (heap s a)) as" using assms(1) by (simp add: queue_inv_def)
  from chain_source [OF ch] have "chunk_next (heap s a) = None \<longleftrightarrow> as = []" .
  then show ?thesis using assms ch by (auto simp: queue_inv_def)
qed

lemma lexer_inv_end_of_chunk:
  assumes inv: "lexer_inv fed lb (a # as) s" and cc: "cur_char s = None"
  shows "\<exists>s'. end_of_chunk s = Inr s' \<and> lexer_inv fed lb as s'"
proof -
  have ti: "text_inv fed (a # as) s" and ok: "token_ok fed (a # as) s" and lb: "gap_ok fed lb s"
    using inv by (auto simp: lexer_inv_def)
  define v where "v = chunk_value (heap s a)"
  from cur_char_None [OF ti cc] have src: "source s = Some a"
    and k: "sourceOffset s = int (length v)" by (auto simp: v_def)
  have q: "queue_inv s (a # as)" and kn: "sourceOffset s \<le> tokenOffset s"
    and nlen: "tokenOffset s \<le> int (length fed)"
    and d: "drop (nat (tokenOffset s - sourceOffset s)) fed = v @ concat (queue s as)"
    and pos: "position s = track (0, 0, 0) (take (nat (tokenOffset s)) fed)"
    using ti by (auto simp: text_inv_def queue_def v_def)
  have d': "drop (nat (tokenOffset s)) fed = concat (queue s as)"
  proof -
    have "nat (tokenOffset s) = length v + nat (tokenOffset s - sourceOffset s)"
      using k kn by linarith
    then have "drop (nat (tokenOffset s)) fed
                 = drop (length v) (drop (nat (tokenOffset s - sourceOffset s)) fed)"
      by simp
    then show ?thesis unfolding d by simp
  qed
  define s1 where "s1 = (if tokenValueOffset s \<noteq> - 1
      then s\<lparr> token := map_option (\<lambda>t. t\<lparr> tok_value := Str (substring v (tokenValueOffset s) None) \<rparr>) (token s),
              tokenValueOffset := - 1 \<rparr>
      else s)"
  define s' where "s' = s1\<lparr> source := chunk_next (heap s a),
      sourceTail := (if chunk_next (heap s a) = None then None else sourceTail s),
      sourceOffset := 0 \<rparr>"
  have tk: "tokenValueOffset s \<noteq> - 1 \<Longrightarrow> token s \<noteq> None"
    using ok by (cases "token s") (auto simp: token_ok_def)
  have e: "end_of_chunk s = Inr s'"
    using src tk
    by (cases "token s") (auto simp: end_of_chunk_def s'_def s1_def v_def Let_def)
  have fr: "heap s' = heap s" "nextAddr s' = nextAddr s" "source s' = chunk_next (heap s a)"
    "sourceTail s' = (if chunk_next (heap s a) = None then None else sourceTail s)"
    "sourceOffset s' = 0" "tokenOffset s' = tokenOffset s" "position s' = position s"
    by (simp_all add: s'_def s1_def position_def)
  have q': "queue_inv s' as" by (rule queue_inv_tail [OF q fr(1-4)])
  have ti': "text_inv fed as s'"
    using q' d' pos kn nlen k fr queue_cong [OF fr(1), of as]
    by (cases as) (simp_all add: text_inv_def)
  have low': "low s' = low s" by (simp add: low_def s'_def s1_def split: option.splits)
  have ok': "token_ok fed as s'"
  proof (cases "token s")
    case None
    then show ?thesis using ok by (simp add: token_ok_def s'_def s1_def)
  next
    case (Some t)
    have off: "0 \<le> offset t" "offset t < tokenOffset s"
      and tpos: "(offset t, line t, column t) = track (0, 0, 0) (take (nat (offset t)) fed)"
      using ok Some by (auto simp: token_ok_def)
    show ?thesis
    proof (cases "tokenValueOffset s = - 1")
      case True
      then show ?thesis using ok Some by (simp add: token_ok_def s'_def s1_def)
    next
      case False
      then have nl: "tok_type t \<noteq> LINE" and ck: "capture_kind (tok_type t)"
        and tv: "0 \<le> tokenValueOffset s"
        and eq: "tokenOffset s - offset t = sourceOffset s - tokenValueOffset s"
        using ok Some by (auto simp: token_ok_def split: if_splits)
      have le: "tokenValueOffset s \<le> int (length v)" using eq off k by linarith
      have "substring v (tokenValueOffset s) None = slice v (tokenValueOffset s) (int (length v))"
        by (rule substring_rest [OF tv le])
      also have "\<dots> = slice fed (tokenOffset s - sourceOffset s + tokenValueOffset s)
                         (tokenOffset s - sourceOffset s + int (length v))"
        using slice_in_chunk [OF d _ tv le] kn by simp
      also have "\<dots> = slice fed (offset t) (tokenOffset s)"
      proof -
        have "tokenOffset s - sourceOffset s + tokenValueOffset s = offset t"
          "tokenOffset s - sourceOffset s + int (length v) = tokenOffset s"
          using eq k by linarith+
        then show ?thesis by simp
      qed
      finally show ?thesis
        using False Some off tpos nl ck by (simp add: token_ok_def s'_def s1_def)
    qed
  qed
  show ?thesis using e ti' ok' lb low' by (auto simp: lexer_inv_def gap_ok_def)
qed


subsection \<open>Appending a chunk\<close>

lemma chain_link:
  assumes "chain h p as" and "as \<noteq> []" and "distinct as" and "n \<notin> set as"
    and hn: "chunk_next (h' n) = None"
    and hl: "chunk_next (h' (last as)) = Some n"
    and ho: "\<And>a. a \<in> set as \<Longrightarrow> a \<noteq> last as \<Longrightarrow> h' a = h a"
  shows "chain h' p (as @ [n])"
  using assms(1-4) hl ho
proof (induction as arbitrary: p)
  case Nil
  then show ?case by simp
next
  case (Cons a as)
  show ?case
  proof (cases "as = []")
    case True
    then show ?thesis using Cons.prems hn by simp
  next
    case False
    have al: "a \<noteq> last (a # as)" using Cons.prems(3) False by auto
    have ha: "h' a = h a" using Cons.prems(6) [of a] al by simp
    have "chain h' (chunk_next (h a)) (as @ [n])"
    proof (rule Cons.IH [OF _ False])
      show "chain h (chunk_next (h a)) as" using Cons.prems(1) by simp
      show "distinct as" using Cons.prems(3) by simp
      show "n \<notin> set as" using Cons.prems(4) by simp
      show "chunk_next (h' (last as)) = Some n" using Cons.prems(5) False by simp
      show "\<And>b. b \<in> set as \<Longrightarrow> b \<noteq> last as \<Longrightarrow> h' b = h b"
        using Cons.prems(6) False by simp
    qed
    then show ?thesis using Cons.prems(1) ha by simp
  qed
qed

lemma appendSource_queue:
  assumes q: "queue_inv s as"
  shows "\<exists>s'. appendSource v s = Inr s' \<and> queue_inv s' (as @ [nextAddr s])
       \<and> queue s' (as @ [nextAddr s]) = queue s as @ [v]
       \<and> nextAddr s' = nextAddr s + 1
       \<and> sourceOffset s' = sourceOffset s \<and> tokenOffset s' = tokenOffset s
       \<and> tokenLine s' = tokenLine s \<and> tokenColumn s' = tokenColumn s
       \<and> token s' = token s \<and> tokenValueOffset s' = tokenValueOffset s
       \<and> (\<forall>a \<in> set as. chunk_value (heap s' a) = chunk_value (heap s a))"
proof -
  define n where "n = nextAddr s"
  have ch: "chain (heap s) (source s) as" and di: "distinct as"
    and lt: "\<forall>a \<in> set as. a < n"
    and tl: "sourceTail s = (if as = [] then None else Some (last as))"
    using q by (auto simp: queue_inv_def n_def)
  have nin: "n \<notin> set as" using lt by auto
  show ?thesis
  proof (cases "as = []")
    case True
    then have src: "source s = None" using ch by simp
    define s' where "s' = s\<lparr> heap := (heap s)(n := \<lparr> chunk_value = v, chunk_next = None \<rparr>),
        nextAddr := n + 1, source := Some n, sourceTail := Some n \<rparr>"
    have "appendSource v s = Inr s'"
      using src by (simp add: appendSource_def Let_def s'_def n_def)
    moreover have "queue_inv s' [n]" by (simp add: queue_inv_def s'_def)
    moreover have "queue s' [n] = [v]" by (simp add: queue_def s'_def)
    ultimately show ?thesis using True by (simp add: n_def [symmetric] queue_def s'_def)
  next
    case False
    then obtain b where src: "source s = Some b" using ch by (cases as) auto
    define l where "l = last as"
    have tl': "sourceTail s = Some l" using tl False by (simp add: l_def)
    have lin: "l \<in> set as" using False by (simp add: l_def)
    then have ln: "l \<noteq> n" using nin by auto
    define h1 where "h1 = (heap s)(n := \<lparr> chunk_value = v, chunk_next = None \<rparr>)"
    define h' where "h' = h1(l := (h1 l)\<lparr> chunk_next := Some n \<rparr>)"
    define s' where "s' = s\<lparr> heap := h', nextAddr := n + 1, sourceTail := Some n \<rparr>"
    have a: "appendSource v s = Inr s'"
      using src tl' by (simp add: appendSource_def Let_def s'_def h'_def h1_def n_def)
    have "chain h' (source s) (as @ [n])"
    proof (rule chain_link [OF ch False di nin])
      show "chunk_next (h' n) = None" using ln by (simp add: h'_def h1_def)
      show "chunk_next (h' (last as)) = Some n" by (simp add: h'_def l_def [symmetric])
      show "\<And>a. a \<in> set as \<Longrightarrow> a \<noteq> last as \<Longrightarrow> h' a = heap s a"
        using nin by (auto simp: h'_def h1_def l_def)
    qed
    then have q': "queue_inv s' (as @ [n])"
      using di nin lt by (auto simp: queue_inv_def s'_def)
    have cv: "\<forall>a \<in> set as. chunk_value (h' a) = chunk_value (heap s a)"
      using nin by (auto simp: h'_def h1_def)
    have "chunk_value (h' n) = v" using ln by (simp add: h'_def h1_def)
    then have "queue s' (as @ [n]) = queue s as @ [v]"
      using cv by (simp add: queue_def s'_def)
    then show ?thesis using a q' cv by (simp add: n_def [symmetric] s'_def)
  qed
qed

lemma lexer_inv_appendSource:
  assumes inv: "lexer_inv fed lb as s"
  shows "\<exists>s'. appendSource v s = Inr s' \<and> lexer_inv (fed @ v) lb (as @ [nextAddr s]) s'"
proof -
  have ti: "text_inv fed as s" and ok: "token_ok fed as s" and lb: "gap_ok fed lb s"
    using inv by (auto simp: lexer_inv_def)
  have q: "queue_inv s as" using ti by (simp add: text_inv_def)
  define n where "n = nextAddr s"
  from appendSource_queue [OF q, of v] obtain s' where a: "appendSource v s = Inr s'"
    and q': "queue_inv s' (as @ [n])" and qu: "queue s' (as @ [n]) = queue s as @ [v]"
    and sc: "sourceOffset s' = sourceOffset s" "tokenOffset s' = tokenOffset s"
      "tokenLine s' = tokenLine s" "tokenColumn s' = tokenColumn s"
      "token s' = token s" "tokenValueOffset s' = tokenValueOffset s"
    and cv: "\<forall>a \<in> set as. chunk_value (heap s' a) = chunk_value (heap s a)"
    unfolding n_def by blast
  have b: "0 \<le> sourceOffset s" "sourceOffset s \<le> tokenOffset s"
    "tokenOffset s \<le> int (length fed)"
    and hd: "case as of [] \<Rightarrow> sourceOffset s = 0
         | a # _ \<Rightarrow> sourceOffset s \<le> int (length (chunk_value (heap s a)))"
    and d: "drop (nat (tokenOffset s - sourceOffset s)) fed = concat (queue s as)"
    and pos: "position s = track (0, 0, 0) (take (nat (tokenOffset s)) fed)"
    using ti by (auto simp: text_inv_def)
  have hd': "case as @ [n] of [] \<Rightarrow> sourceOffset s' = 0
         | a # _ \<Rightarrow> sourceOffset s' \<le> int (length (chunk_value (heap s' a)))"
    using hd sc cv by (cases as) simp_all
  have d': "drop (nat (tokenOffset s' - sourceOffset s')) (fed @ v) = concat (queue s' (as @ [n]))"
    using d b by (simp add: sc qu)
  have pos': "position s' = track (0, 0, 0) (take (nat (tokenOffset s')) (fed @ v))"
    using pos b by (simp add: position_def sc)
  have ti': "text_inv (fed @ v) (as @ [n]) s'"
    using q' b hd' d' pos' by (simp add: text_inv_def sc)
  have ok': "token_ok (fed @ v) (as @ [n]) s'"
  proof (cases "token s")
    case None
    then show ?thesis using ok by (simp add: token_ok_def sc)
  next
    case (Some t)
    have off: "0 \<le> offset t" "offset t < tokenOffset s" using ok Some by (auto simp: token_ok_def)
    have 1: "take (nat (offset t)) (fed @ v) = take (nat (offset t)) fed" using off b by simp
    have 2: "slice (fed @ v) (offset t + 1) (tokenOffset s) = slice fed (offset t + 1) (tokenOffset s)"
      using off b by (intro slice_append_left) simp_all
    have 3: "slice (fed @ v) (offset t) (tokenOffset s) = slice fed (offset t) (tokenOffset s)"
      using off b by (intro slice_append_left) simp_all
    show ?thesis using ok Some by (simp add: token_ok_def sc 1 2 3 del: take_append)
  qed
  have lo: "low s' = low s" by (simp add: low_def sc cong: option.case_cong)
  have "low s \<le> int (length fed)"
    using ok b by (cases "token s") (auto simp: low_def token_ok_def)
  then have "slice (fed @ v) lb (low s) = slice fed lb (low s)"
    using lb by (intro slice_append_left) (simp_all add: gap_ok_def)
  then have "gap_ok (fed @ v) lb s'" using lb lo by (simp add: gap_ok_def)
  then show ?thesis using a ti' ok' by (auto simp: lexer_inv_def n_def)
qed

subsection \<open>The invariant through \<open>next\<close>\<close>

lemma next_inv:
  assumes "lexer_inv fed lb as s"
  shows "\<exists>r. next b s = Some r
       \<and> (\<forall>t s'. r = Inr (Some t, s') \<longrightarrow> (\<exists>k. returned_ok fed lb (drop k as) t s'))
       \<and> (\<forall>s'. r = Inr (None, s') \<longrightarrow> lexer_inv fed lb [] s' \<and> (b \<longrightarrow> token s' = None))"
proof (rule next_lift [where I = "lexer_inv fed lb" and Q = "returned_ok fed lb"])
  show "\<And>as s c s'. lexer_inv fed lb as s \<Longrightarrow> cur_char s = Some c \<Longrightarrow> step c s = Continue s'
          \<Longrightarrow> lexer_inv fed lb as s'"
    by (rule lexer_inv_step_Continue)
  show "\<And>as s c t s'. lexer_inv fed lb as s \<Longrightarrow> cur_char s = Some c \<Longrightarrow> step c s = Return t s'
          \<Longrightarrow> returned_ok fed lb as t s'"
    by (rule lexer_inv_step_Return)
  show "\<And>a as s. lexer_inv fed lb (a # as) s \<Longrightarrow> cur_char s = None
          \<Longrightarrow> \<exists>s'. end_of_chunk s = Inr s' \<and> lexer_inv fed lb as s'"
    by (rule lexer_inv_end_of_chunk)
  show "\<And>as s. lexer_inv fed lb as s \<Longrightarrow> (source s = None) = (as = [])"
    by (rule lexer_inv_source)
  show "\<And>s t0. lexer_inv fed lb [] s \<Longrightarrow> token s = Some t0
          \<Longrightarrow> \<exists>t s'. flushToken s = Inr (t, s') \<and> returned_ok fed lb [] t s'"
    by (rule lexer_inv_eos)
  show "lexer_inv fed lb as s" by (rule assms)
qed

lemma lexer_inv_Lexer: "lexer_inv [] 0 [] Lexer"
  by (simp add: lexer_inv_def text_inv_def token_ok_def gap_ok_def queue_inv_def queue_def
        low_def position_def slice_empty Lexer_def)


section \<open>Lexing sessions\<close>

text \<open>
  A session is any sequence of \<open>appendSource\<close> and \<open>next\<close> calls on a new lexer, none
  of which throws.  \<open>session fed toks s\<close>: after such a sequence the lexer is \<open>s\<close>,
  \<open>fed\<close> is the text of all chunks appended so far, in order, and \<open>toks\<close> are the
  tokens returned so far, in order.
\<close>

inductive session :: "chunk \<Rightarrow> token list \<Rightarrow> lexer \<Rightarrow> bool" where
  start: "session [] [] Lexer"
| appended: "session fed toks s \<Longrightarrow> appendSource v s = Inr s' \<Longrightarrow> session (fed @ v) toks s'"
| no_token: "session fed toks s \<Longrightarrow> next b s = Some (Inr (None, s')) \<Longrightarrow> session fed toks s'"
| got_token: "session fed toks s \<Longrightarrow> next b s = Some (Inr (Some t, s'))
                \<Longrightarrow> session fed (toks @ [t]) s'"

text \<open>A token's position fields are the position of the character at its offset.\<close>

definition token_at :: "chunk \<Rightarrow> token \<Rightarrow> bool" where
  "token_at fed t \<longleftrightarrow>
     0 \<le> offset t \<and> offset t < int (length fed)
     \<and> (offset t, line t, column t) = track (0, 0, 0) (take (nat (offset t)) fed)"

lemma token_at_append:
  assumes "token_at fed t"
  shows "token_at (fed @ v) t"
proof -
  have "offset t < int (length fed)" using assms by (simp add: token_at_def)
  then have "nat (offset t) - length fed = 0" by linarith
  then show ?thesis using assms by (simp add: token_at_def)
qed

lemma returned_ok_token_at:
  assumes "returned_ok fed lb as t s'"
  shows "token_at fed t \<and> lb \<le> offset t \<and> offset t < tokenOffset s'"
proof -
  have "tokenOffset s' \<le> int (length fed)"
    using assms by (simp add: returned_ok_def lexer_inv_def text_inv_def)
  then show ?thesis using assms by (simp add: returned_ok_def token_at_def)
qed

text \<open>
  In a session the invariant holds, for some offset \<open>lb\<close> that is past the first
  character of every token returned so far.
\<close>

lemma session_inv:
  assumes "session fed toks s"
  shows "\<exists>as lb. lexer_inv fed lb as s \<and> sorted_wrt (<) (map offset toks)
       \<and> (\<forall>t \<in> set toks. token_at fed t \<and> offset t < lb)"
  using assms
proof (induction rule: session.induct)
  case start
  show ?case using lexer_inv_Lexer by auto
next
  case (appended fed toks s v s')
  then obtain as lb where i: "lexer_inv fed lb as s"
    and r: "sorted_wrt (<) (map offset toks)"
      "\<forall>t \<in> set toks. token_at fed t \<and> offset t < lb" by auto
  from lexer_inv_appendSource [OF i, of v] appended.hyps(2)
  have "lexer_inv (fed @ v) lb (as @ [nextAddr s]) s'" by auto
  then show ?case using r token_at_append by blast
next
  case (no_token fed toks s b s')
  then obtain as lb where i: "lexer_inv fed lb as s"
    and r: "sorted_wrt (<) (map offset toks)"
      "\<forall>t \<in> set toks. token_at fed t \<and> offset t < lb" by auto
  from next_inv [OF i, of b] no_token.hyps(2)
  have "lexer_inv fed lb [] s'" by auto
  then show ?case using r by blast
next
  case (got_token fed toks s b t s')
  then obtain as lb where i: "lexer_inv fed lb as s"
    and r: "sorted_wrt (<) (map offset toks)"
      "\<forall>t \<in> set toks. token_at fed t \<and> offset t < lb" by auto
  from next_inv [OF i, of b] got_token.hyps(2)
  obtain k where ro: "returned_ok fed lb (drop k as) t s'" by auto
  have i': "lexer_inv fed (tokenOffset s') (drop k as) s'"
    using ro by (simp add: returned_ok_def)
  from returned_ok_token_at [OF ro] have ta: "token_at fed t" and lo: "lb \<le> offset t"
    and hi: "offset t < tokenOffset s'" by auto
  have "sorted_wrt (<) (map offset (toks @ [t]))"
    using r lo by (auto simp: sorted_wrt_append)
  moreover have "\<forall>u \<in> set (toks @ [t]). token_at fed u \<and> offset u < tokenOffset s'"
    using r lo hi ta by auto
  ultimately show ?case using i' by blast
qed



section \<open>Concrete sessions\<close>

text \<open>
  Names for the lexers of concrete sessions: a new lexer with chunks appended, and
  the lexer a call of \<open>next\<close> leaves.
\<close>

definition lexer_after :: "chunk list \<Rightarrow> lexer" where
  "lexer_after vs = (case appendSources vs Lexer of Inr s \<Rightarrow> s | Inl e \<Rightarrow> Lexer)"

definition state_after_next :: "bool \<Rightarrow> lexer \<Rightarrow> lexer" where
  "state_after_next b s = (case next b s of Some (Inr (t, s')) \<Rightarrow> s' | _ \<Rightarrow> s)"

definition token_of_next :: "bool \<Rightarrow> lexer \<Rightarrow> (error + token option) option" where
  "token_of_next b s = map_option (map_sum id fst) (next b s)"

lemma next_resultI:
  assumes "token_of_next b s = Some (Inr t)"
  shows "next b s = Some (Inr (t, state_after_next b s))"
proof -
  from assms obtain r where r: "next b s = Some r" and "map_sum id fst r = Inr t"
    by (auto simp: token_of_next_def)
  then obtain s' where "r = Inr (t, s')" by (cases r) auto
  then show ?thesis using r by (simp add: state_after_next_def)
qed

lemma appendSource_Lexer: "appendSource v Lexer = Inr (lexer_after [v])"
  by (simp add: lexer_after_def appendSource_def Lexer_def Let_def)

lemma session_one_chunk: "session v [] (lexer_after [v])"
  using session.appended [OF session.start appendSource_Lexer] by simp

lemma session_two_chunks: "session (v @ w) [] (lexer_after [v, w])"
proof -
  from session_inv [OF session_one_chunk [of v]] obtain as lb
    where "lexer_inv v lb as (lexer_after [v])" by auto
  from lexer_inv_appendSource [OF this, of w] obtain s'
    where a: "appendSource w (lexer_after [v]) = Inr s'" by auto
  have "appendSources [v, w] Lexer = Inr s'"
    by (simp add: appendSource_Lexer a)
  then have "lexer_after [v, w] = s'" by (simp add: lexer_after_def)
  with session.appended [OF session_one_chunk a] show ?thesis by simp
qed


subsection \<open>Slices of the text\<close>

lemma takeWhile_prefix:
  assumes "list_all P xs" and "case ys of [] \<Rightarrow> True | y # _ \<Rightarrow> \<not> P y"
  shows "takeWhile P (xs @ ys) = xs"
proof -
  have "takeWhile P ys = []" using assms(2) by (cases ys) auto
  moreover have "\<forall>x \<in> set xs. P x" using assms(1) by (simp add: list_all_iff)
  ultimately show ?thesis by simp
qed

lemma drop_slice_split:
  assumes "0 \<le> i" and "i \<le> j" and "j \<le> int (length xs)"
  shows "drop (nat i) xs = slice xs i j @ drop (nat j) xs"
proof -
  have "nat j = nat (j - i) + nat i" using assms by linarith
  then have "drop (nat j) xs = drop (nat (j - i)) (drop (nat i) xs)" by simp
  then show ?thesis unfolding slice_def by (simp only: append_take_drop_id)
qed

lemma length_slice:
  assumes "0 \<le> i" and "i \<le> j" and "j \<le> int (length xs)"
  shows "int (length (slice xs i j)) = j - i"
  using assms by (simp add: slice_def)


section \<open>The loop does not depend on where the chunks are in the store\<close>

text \<open>
  \<open>graft d z\<close>: the lexer \<open>z\<close> with the store and the queue references of \<open>d\<close>.  The
  loop body reads of the store the text of the head chunk only, and writes neither
  the store nor the queue references.
\<close>

definition graft :: "lexer \<Rightarrow> lexer \<Rightarrow> lexer" where
  "graft d z = z\<lparr> heap := heap d, nextAddr := nextAddr d, source := source d,
                  sourceTail := sourceTail d \<rparr>"

definition cur_value :: "lexer \<Rightarrow> chunk option" where
  "cur_value s = (case source s of None \<Rightarrow> None | Some a \<Rightarrow> Some (chunk_value (heap s a)))"

fun map_outcome :: "(lexer \<Rightarrow> lexer) \<Rightarrow> outcome \<Rightarrow> outcome" where
  "map_outcome f (Throw e) = Throw e"
| "map_outcome f (Return t s) = Return t (f s)"
| "map_outcome f (Continue s) = Continue (f s)"

lemma graft_fields [simp]:
  "heap (graft d z) = heap d" "nextAddr (graft d z) = nextAddr d"
  "source (graft d z) = source d" "sourceTail (graft d z) = sourceTail d"
  "sourceOffset (graft d z) = sourceOffset z" "tokenOffset (graft d z) = tokenOffset z"
  "tokenLine (graft d z) = tokenLine z" "tokenColumn (graft d z) = tokenColumn z"
  "token (graft d z) = token z" "tokenValueOffset (graft d z) = tokenValueOffset z"
  by (simp_all add: graft_def)

lemma graft_update [simp]:
  "graft d (z\<lparr> token := tk \<rparr>) = (graft d z)\<lparr> token := tk \<rparr>"
  "graft d (z\<lparr> tokenValueOffset := i \<rparr>) = (graft d z)\<lparr> tokenValueOffset := i \<rparr>"
  "graft d (z\<lparr> tokenLine := i \<rparr>) = (graft d z)\<lparr> tokenLine := i \<rparr>"
  "graft d (z\<lparr> tokenColumn := i \<rparr>) = (graft d z)\<lparr> tokenColumn := i \<rparr>"
  "graft d (z\<lparr> tokenOffset := i \<rparr>) = (graft d z)\<lparr> tokenOffset := i \<rparr>"
  "graft d (z\<lparr> sourceOffset := i \<rparr>) = (graft d z)\<lparr> sourceOffset := i \<rparr>"
  by (simp_all add: graft_def)

lemma cur_value_graft: "cur_value (graft d z) = cur_value d"
  by (simp add: cur_value_def cong: option.case_cong)

lemma makeToken_graft: "makeToken k (graft d z) = makeToken k z"
  by (simp add: makeToken_def)

lemma advance_graft: "advance (graft d z) = graft d (advance z)"
  by (simp add: advance_def)

lemma append_value_graft: "append_value c t (graft d z) = graft d (append_value c t z)"
  by (simp add: append_value_def)

lemma flushToken_graft:
  assumes "cur_value d = cur_value z"
  shows "flushToken (graft d z) = map_sum id (apsnd (graft d)) (flushToken z)"
proof (cases "token z")
  case None
  then show ?thesis by (simp add: flushToken_def)
next
  case (Some t)
  show ?thesis
  proof (cases "source z")
    case None
    then have "source d = None" using assms by (simp add: cur_value_def split: option.splits)
    then show ?thesis using None Some by (simp add: flushToken_def Let_def)
  next
    case (Some a)
    then obtain b where b: "source d = Some b" and v: "chunk_value (heap d b) = chunk_value (heap z a)"
      using assms by (auto simp: cur_value_def split: option.splits)
    then show ?thesis using Some \<open>token z = Some t\<close> by (simp add: flushToken_def Let_def)
  qed
qed

lemma flush_return_graft:
  assumes "cur_value d = cur_value z"
  shows "flush_return (graft d z) = map_outcome (graft d) (flush_return z)"
  unfolding flush_return_def flushToken_graft [OF assms]
  by (cases "flushToken z") (auto split: prod.splits)

lemma bad_hex_prefix_graft:
  assumes "cur_value d = cur_value z"
  shows "bad_hex_prefix t (graft d z) = bad_hex_prefix t z"
proof (cases "source z")
  case None
  then have "source d = None" using assms by (simp add: cur_value_def split: option.splits)
  then show ?thesis using None by (simp add: bad_hex_prefix_def)
next
  case (Some a)
  then obtain b where b: "source d = Some b" and v: "chunk_value (heap d b) = chunk_value (heap z a)"
    using assms by (auto simp: cur_value_def split: option.splits)
  then show ?thesis using Some by (simp add: bad_hex_prefix_def)
qed

lemma continue_token_graft:
  assumes "cur_value d = cur_value z"
  shows "continue_token t c (graft d z) = map_outcome (graft d) (continue_token t c z)"
proof -
  consider (kline) "tok_type t = LINE" | (ksym) "tok_type t = SYMBOL" | (kdec) "tok_type t = DECIMAL_NUMBER"
    | (khex) "tok_type t = HEX_NUMBER" | (kfrac) "tok_type t = FRACTIONAL_NUMBER"
    | (ktext) "tok_type t = TEXT" | (ksingle) "tok_type t \<noteq> LINE" "\<not> capture_kind (tok_type t)"
    by (auto simp: capture_kind_def)
  then show ?thesis
  proof cases
    case kline
    then show ?thesis by (simp add: continue_token_LINE flush_return_graft [OF assms])
  next
    case ksym
    then show ?thesis
      by (simp add: continue_token_SYMBOL flush_return_graft [OF assms] append_value_graft)
  next
    case khex
    then show ?thesis
      by (simp add: continue_token_HEX flush_return_graft [OF assms] append_value_graft)
  next
    case kfrac
    then show ?thesis
      by (simp add: continue_token_FRACTIONAL flush_return_graft [OF assms] append_value_graft)
  next
    case ktext
    then show ?thesis by (simp add: continue_token_TEXT)
  next
    case ksingle
    then show ?thesis by (simp add: continue_token_single)
  next
    case kdec
    show ?thesis
    proof (cases "bad_hex_prefix t z")
      case (Inl e)
      then show ?thesis using kdec
        by (simp add: continue_token_DECIMAL flush_return_graft [OF assms] append_value_graft
              bad_hex_prefix_graft [OF assms])
    next
      case (Inr bad)
      then show ?thesis using kdec
        by (cases bad)
           (simp_all add: continue_token_DECIMAL flush_return_graft [OF assms] append_value_graft
              bad_hex_prefix_graft [OF assms])
    qed
  qed
qed

lemma begin_token_graft:
  "begin_token c (graft d z) = map_sum id (apsnd (graft d)) (begin_token c z)"
  by (cases "SINGLE_TOKENS c") (simp_all add: begin_token_def makeToken_graft)

lemma step_graft:
  assumes "cur_value d = cur_value z"
  shows "step c (graft d z) = map_outcome (graft d) (step c z)"
proof (cases "token z")
  case None
  show ?thesis
  proof (cases "begin_token c z")
    case (Inl e)
    then show ?thesis using None by (simp add: step_def begin_token_graft)
  next
    case (Inr r)
    obtain tok s1 where r: "r = (tok, s1)" by (cases r)
    show ?thesis using None Inr r
      by (cases tok) (simp_all add: step_def begin_token_graft advance_graft)
  qed
next
  case (Some t)
  show ?thesis using Some
    by (cases "continue_token t c z")
       (simp_all add: step_def continue_token_graft [OF assms] advance_graft)
qed


lemma cur_char_graft:
  assumes "cur_value d = cur_value z"
  shows "cur_char (graft d z) = cur_char z"
  using assms by (auto simp: cur_value_def cur_char_def split: option.splits)

lemma cur_value_step:
  assumes "step c z = Continue z'"
  shows "cur_value z' = cur_value z"
  using step_Continue_frame [OF assms] by (simp add: cur_value_def cong: option.case_cong)

lemma scan_chunk_None: "source s = None \<Longrightarrow> scan_chunk s = Throw TypeError"
  by (subst scan_chunk.simps) simp

lemma scan_chunk_graft:
  assumes "cur_value d = cur_value z"
  shows "scan_chunk (graft d z) = map_outcome (graft d) (scan_chunk z)"
  using assms
proof (induction z rule: scan_chunk.induct)
  case (1 z)
  show ?case
  proof (cases "source z")
    case None
    then have "source d = None" using "1.prems" by (simp add: cur_value_def split: option.splits)
    then show ?thesis using None by (simp add: scan_chunk_None)
  next
    case (Some a)
    then obtain b where b: "source d = Some b"
      using "1.prems" by (auto simp: cur_value_def split: option.splits)
    have sg: "source (graft d z) = Some b" using b by simp
    show ?thesis
    proof (cases "cur_char z")
      case None
      then show ?thesis
        using Some sg cur_char_graft [OF "1.prems"]
        by (simp add: scan_chunk_unfold [OF Some] scan_chunk_unfold [OF sg])
    next
      case c: (Some c)
      then have cc: "charCodeAt (chunk_value (heap z a)) (sourceOffset z) = Some c"
        using Some by (simp add: cur_char_def)
      show ?thesis
      proof (cases "step c z")
        case (Throw e)
        then show ?thesis
          using c cur_char_graft [OF "1.prems"] step_graft [OF "1.prems", of c]
          by (simp add: scan_chunk_unfold [OF Some] scan_chunk_unfold [OF sg])
      next
        case (Return t z')
        then show ?thesis
          using c cur_char_graft [OF "1.prems"] step_graft [OF "1.prems", of c]
          by (simp add: scan_chunk_unfold [OF Some] scan_chunk_unfold [OF sg])
      next
        case (Continue z')
        have cv: "cur_value d = cur_value z'" using cur_value_step [OF Continue] "1.prems" by simp
        have "scan_chunk (graft d z') = map_outcome (graft d) (scan_chunk z')"
          by (rule "1.IH" [OF Some cc Continue cv])
        then show ?thesis
          using c Continue cur_char_graft [OF "1.prems"] step_graft [OF "1.prems", of c]
          by (simp add: scan_chunk_unfold [OF Some] scan_chunk_unfold [OF sg])
      qed
    qed
  qed
qed

lemma scan_chunk_frame:
  assumes "scan_chunk s = Continue s' \<or> scan_chunk s = Return t s'"
  shows "heap s' = heap s \<and> nextAddr s' = nextAddr s \<and> source s' = source s
       \<and> sourceTail s' = sourceTail s"
proof -
  define I where "I = (\<lambda>z :: lexer. heap z = heap s \<and> nextAddr z = nextAddr s \<and> source z = source s
       \<and> sourceTail z = sourceTail s)"
  have src: "source s \<noteq> None"
  proof
    assume "source s = None"
    then have "scan_chunk s = Throw TypeError" by (rule scan_chunk_None)
    with assms show False by simp
  qed
  have "(\<forall>t s'. scan_chunk s = Return t s' \<longrightarrow> I s')
       \<and> (\<forall>s'. scan_chunk s = Continue s' \<longrightarrow> I s' \<and> cur_char s' = None \<and> source s' = source s)"
  proof (rule scan_chunk_lift [where I = I and Q = "\<lambda>t. I"])
    fix z c z' assume "I z" and "step c z = Continue z'"
    then show "I z'" using step_Continue_frame [of c z z'] by (simp add: I_def)
  next
    fix z c t z' assume "I z" and "step c z = Return t z'"
    then show "I z'" using step_Return_frame [of c z t z'] by (simp add: I_def)
  next
    show "I s" by (simp add: I_def)
    show "source s \<noteq> None" by (rule src)
  qed
  then show ?thesis using assms by (auto simp: I_def)
qed

text \<open>Leaving a chunk, written out.\<close>

lemma end_of_chunk_Some:
  assumes "source s = Some a"
  shows "end_of_chunk s =
     (if tokenValueOffset s \<noteq> - 1 \<and> token s = None then Inl TypeError
      else Inr (s\<lparr> token := (if tokenValueOffset s \<noteq> - 1
                              then map_option (\<lambda>t. t\<lparr> tok_value :=
                                     Str (substring (chunk_value (heap s a)) (tokenValueOffset s) None) \<rparr>)
                                     (token s)
                              else token s),
                    tokenValueOffset := - 1,
                    source := chunk_next (heap s a),
                    sourceTail := (if chunk_next (heap s a) = None then None else sourceTail s),
                    sourceOffset := 0 \<rparr>))"
proof (cases "tokenValueOffset s = - 1")
  case True
  have "s\<lparr> tokenValueOffset := - 1 \<rparr> = s" using True by (cases s) simp
  then have "\<And>p q. s\<lparr> token := token s, tokenValueOffset := - 1, source := p, sourceTail := q,
                       sourceOffset := 0 \<rparr> = s\<lparr> source := p, sourceTail := q, sourceOffset := 0 \<rparr>"
    using True by (cases s) simp
  then show ?thesis using assms True by (simp add: end_of_chunk_def Let_def)
next
  case False
  then show ?thesis using assms
    by (cases "token s") (simp_all add: end_of_chunk_def Let_def)
qed


section \<open>Lexers that hold the same text in the same state\<close>

definition scalars :: "lexer \<Rightarrow> int \<times> int \<times> int \<times> int \<times> token option \<times> int" where
  "scalars s = (sourceOffset s, tokenOffset s, tokenLine s, tokenColumn s, token s,
                tokenValueOffset s)"

text \<open>
  Two lexers are the same for every caller when their counters and tokens are equal and
  their queues, both well formed, hold the same chunks: they differ only in where the
  store keeps the chunks, and in objects that are no longer in the queue.
\<close>

definition same_lexer :: "lexer \<Rightarrow> lexer \<Rightarrow> bool" where
  "same_lexer x y \<longleftrightarrow>
     scalars x = scalars y
     \<and> (\<exists>bs bs'. queue_inv x bs \<and> queue_inv y bs' \<and> queue x bs = queue y bs')"

fun same_outcome :: "outcome \<Rightarrow> outcome \<Rightarrow> bool" where
  "same_outcome (Throw e) (Throw e') = (e = e')"
| "same_outcome (Return t x) (Return t' y) = (t = t' \<and> same_lexer x y)"
| "same_outcome (Continue x) (Continue y) = (same_lexer x y \<and> source x = None \<and> source y = None)"
| "same_outcome _ _ = False"

lemma chain_unique: "chain h p as \<Longrightarrow> chain h p bs \<Longrightarrow> as = bs"
proof (induction as arbitrary: p bs)
  case Nil
  then show ?case by (cases bs) auto
next
  case (Cons a as)
  then show ?case by (cases bs) auto
qed

lemma queue_inv_unique: "queue_inv s as \<Longrightarrow> queue_inv s bs \<Longrightarrow> as = bs"
  using chain_unique by (auto simp: queue_inv_def)

lemma same_lexer_refl: "queue_inv x bs \<Longrightarrow> same_lexer x x"
  by (auto simp: same_lexer_def)

lemma same_lexer_sym: "same_lexer x y \<Longrightarrow> same_lexer y x"
  by (auto simp: same_lexer_def) metis

lemma same_lexer_trans:
  assumes "same_lexer x y" and "same_lexer y z"
  shows "same_lexer x z"
proof -
  from assms(1) obtain bs bs' where 1: "scalars x = scalars y" "queue_inv x bs" "queue_inv y bs'"
    "queue x bs = queue y bs'" by (auto simp: same_lexer_def)
  from assms(2) obtain cs cs' where 2: "scalars y = scalars z" "queue_inv y cs" "queue_inv z cs'"
    "queue y cs = queue z cs'" by (auto simp: same_lexer_def)
  have "bs' = cs" using queue_inv_unique [OF 1(3) 2(2)] .
  then have "queue x bs = queue z cs'" using 1(4) 2(4) by simp
  then show ?thesis using 1 2 by (auto simp: same_lexer_def)
qed

lemma graft_self: "scalars x = scalars y \<Longrightarrow> graft y x = y"
  by (cases x; cases y) (simp add: graft_def scalars_def)

lemma scalars_graft: "scalars (graft d z) = scalars z"
  by (simp add: scalars_def)

lemma same_lexer_graft:
  assumes "scalars x = scalars y" and "queue_inv x bs" and "queue_inv y bs'"
    and "queue x bs = queue y bs'"
    and "heap x' = heap x" "nextAddr x' = nextAddr x" "source x' = source x"
      "sourceTail x' = sourceTail x"
  shows "same_lexer x' (graft y x')"
proof -
  have "queue_inv x' bs" using assms(2) queue_inv_cong [OF assms(5-8)] by simp
  moreover have "queue_inv (graft y x') bs'"
    using assms(3) queue_inv_cong [of "graft y x'" y bs'] by simp
  moreover have "queue x' bs = queue (graft y x') bs'"
    using assms(4) queue_cong [OF assms(5), of bs] queue_cong [of "graft y x'" y bs'] by simp
  ultimately show ?thesis by (auto simp: same_lexer_def scalars_graft)
qed

lemma end_of_chunk_same:
  assumes sc: "scalars x = scalars y" and sx: "source x = Some a" and sy: "source y = Some b"
    and cv: "chunk_value (heap x a) = chunk_value (heap y b)"
  shows "(\<exists>e. end_of_chunk x = Inl e \<and> end_of_chunk y = Inl e)
       \<or> (\<exists>x2 y2. end_of_chunk x = Inr x2 \<and> end_of_chunk y = Inr y2
            \<and> scalars x2 = scalars y2
            \<and> heap x2 = heap x \<and> nextAddr x2 = nextAddr x
            \<and> source x2 = chunk_next (heap x a)
            \<and> sourceTail x2 = (if chunk_next (heap x a) = None then None else sourceTail x)
            \<and> heap y2 = heap y \<and> nextAddr y2 = nextAddr y
            \<and> source y2 = chunk_next (heap y b)
            \<and> sourceTail y2 = (if chunk_next (heap y b) = None then None else sourceTail y))"
proof -
  have eq: "tokenValueOffset x = tokenValueOffset y" "token x = token y"
    "tokenOffset x = tokenOffset y" "tokenLine x = tokenLine y" "tokenColumn x = tokenColumn y"
    using sc by (simp_all add: scalars_def)
  show ?thesis
  proof (cases "tokenValueOffset x \<noteq> - 1 \<and> token x = None")
    case True
    then show ?thesis using eq by (simp add: end_of_chunk_Some [OF sx] end_of_chunk_Some [OF sy])
  next
    case False
    then show ?thesis
      using eq cv
      by (simp add: end_of_chunk_Some [OF sx] end_of_chunk_Some [OF sy] scalars_def)
  qed
qed

lemma chunks_loop_Some:
  "source s = Some a \<Longrightarrow> chunks_loop s =
     (case scan_chunk s of
        Continue s1 \<Rightarrow> (case end_of_chunk s1 of Inl e \<Rightarrow> Some (Throw e) | Inr s2 \<Rightarrow> chunks_loop s2)
      | r \<Rightarrow> Some r)"
  by (subst chunks_loop.simps) simp

lemma chunks_loop_None: "source s = None \<Longrightarrow> chunks_loop s = Some (Continue s)"
  by (subst chunks_loop.simps) simp

lemma chunks_loop_same:
  assumes "scalars x = scalars y" and "queue_inv x as" and "queue_inv y bs"
    and "queue x as = queue y bs"
  shows "\<exists>r r'. chunks_loop x = Some r \<and> chunks_loop y = Some r' \<and> same_outcome r r'"
  using assms
proof (induction as arbitrary: x y bs)
  case Nil
  then have bs: "bs = []" by (simp add: queue_def)
  have "source x = None" "source y = None"
    using Nil.prems bs queue_inv_source by auto
  moreover have "same_lexer x y" using Nil.prems by (auto simp: same_lexer_def)
  ultimately show ?case by (simp add: chunks_loop_None)
next
  case (Cons a as)
  from Cons.prems(4) obtain b bs' where bs: "bs = b # bs'"
    and cv: "chunk_value (heap x a) = chunk_value (heap y b)"
    and qq: "queue x as = queue y bs'"
    by (cases bs) (auto simp: queue_def)
  have sx: "source x = Some a" and sy: "source y = Some b"
    using Cons.prems(2,3) bs queue_inv_head by auto
  have gy: "graft y x = y" by (rule graft_self [OF Cons.prems(1)])
  have "cur_value y = cur_value x" using sx sy cv by (simp add: cur_value_def)
  from scan_chunk_graft [OF this] have sg: "scan_chunk y = map_outcome (graft y) (scan_chunk x)"
    using gy by simp
  show ?case
  proof (cases "scan_chunk x")
    case (Throw e)
    then show ?thesis using sg by (simp add: chunks_loop_Some [OF sx] chunks_loop_Some [OF sy])
  next
    case (Return t x1)
    from scan_chunk_frame [of x x1 t] Return
    have fr: "heap x1 = heap x" "nextAddr x1 = nextAddr x" "source x1 = source x"
      "sourceTail x1 = sourceTail x" by auto
    have "same_lexer x1 (graft y x1)"
      by (rule same_lexer_graft [OF Cons.prems fr])
    then show ?thesis using Return sg
      by (simp add: chunks_loop_Some [OF sx] chunks_loop_Some [OF sy])
  next
    case (Continue x1)
    define y1 where "y1 = graft y x1"
    from scan_chunk_frame [of x x1] Continue
    have fr: "heap x1 = heap x" "nextAddr x1 = nextAddr x" "source x1 = source x"
      "sourceTail x1 = sourceTail x" by auto
    have sy1: "scan_chunk y = Continue y1" using Continue sg by (simp add: y1_def)
    have sc1: "scalars x1 = scalars y1" by (simp add: y1_def scalars_graft)
    have sx1: "source x1 = Some a" and sy1': "source y1 = Some b"
      using fr sx sy by (simp_all add: y1_def)
    have cv1: "chunk_value (heap x1 a) = chunk_value (heap y1 b)"
      using cv fr by (simp add: y1_def)
    from end_of_chunk_same [OF sc1 sx1 sy1' cv1]
    show ?thesis
    proof
      assume "\<exists>e. end_of_chunk x1 = Inl e \<and> end_of_chunk y1 = Inl e"
      then show ?thesis using Continue sy1
        by (auto simp: chunks_loop_Some [OF sx] chunks_loop_Some [OF sy])
    next
      assume "\<exists>x2 y2. end_of_chunk x1 = Inr x2 \<and> end_of_chunk y1 = Inr y2
            \<and> scalars x2 = scalars y2
            \<and> heap x2 = heap x1 \<and> nextAddr x2 = nextAddr x1
            \<and> source x2 = chunk_next (heap x1 a)
            \<and> sourceTail x2 = (if chunk_next (heap x1 a) = None then None else sourceTail x1)
            \<and> heap y2 = heap y1 \<and> nextAddr y2 = nextAddr y1
            \<and> source y2 = chunk_next (heap y1 b)
            \<and> sourceTail y2 = (if chunk_next (heap y1 b) = None then None else sourceTail y1)"
      then obtain x2 y2 where e: "end_of_chunk x1 = Inr x2" "end_of_chunk y1 = Inr y2"
        and sc2: "scalars x2 = scalars y2"
        and fx: "heap x2 = heap x1" "nextAddr x2 = nextAddr x1"
          "source x2 = chunk_next (heap x1 a)"
          "sourceTail x2 = (if chunk_next (heap x1 a) = None then None else sourceTail x1)"
        and fy: "heap y2 = heap y1" "nextAddr y2 = nextAddr y1"
          "source y2 = chunk_next (heap y1 b)"
          "sourceTail y2 = (if chunk_next (heap y1 b) = None then None else sourceTail y1)"
        by blast
      have qx1: "queue_inv x1 (a # as)" using Cons.prems(2) queue_inv_cong [OF fr] by simp
      have qy1: "queue_inv y1 (b # bs')"
        using Cons.prems(3) bs queue_inv_cong [of y1 y "b # bs'"] by (simp add: y1_def)
      have qx2: "queue_inv x2 as" by (rule queue_inv_tail [OF qx1 fx])
      have qy2: "queue_inv y2 bs'" by (rule queue_inv_tail [OF qy1 fy])
      have "queue x2 as = queue y2 bs'"
        using qq fx(1) fy(1) fr(1) by (simp add: queue_def y1_def)
      from Cons.IH [OF sc2 qx2 qy2 this]
      obtain r r' where "chunks_loop x2 = Some r" "chunks_loop y2 = Some r'" "same_outcome r r'"
        by blast
      then show ?thesis using Continue sy1 e
        by (simp add: chunks_loop_Some [OF sx] chunks_loop_Some [OF sy])
    qed
  qed
qed


lemma next_same:
  assumes "same_lexer x y"
  shows "(\<exists>e. next b x = Some (Inl e) \<and> next b y = Some (Inl e))
       \<or> (\<exists>t x' y'. next b x = Some (Inr (t, x')) \<and> next b y = Some (Inr (t, y'))
            \<and> same_lexer x' y')"
proof -
  from assms obtain as bs where "scalars x = scalars y" "queue_inv x as" "queue_inv y bs"
    "queue x as = queue y bs" by (auto simp: same_lexer_def)
  from chunks_loop_same [OF this] obtain r r'
    where cx: "chunks_loop x = Some r" and cy: "chunks_loop y = Some r'"
      and so: "same_outcome r r'" by blast
  show ?thesis
  proof (cases r)
    case (Throw e)
    then have "r' = Throw e" using so by (cases r') auto
    then show ?thesis using Throw cx cy by (simp add: next_def)
  next
    case (Return t x')
    then obtain y' where "r' = Return t y'" "same_lexer x' y'" using so by (cases r') auto
    then show ?thesis using Return cx cy by (simp add: next_def)
  next
    case (Continue x')
    then obtain y' where r': "r' = Continue y'" and sl: "same_lexer x' y'"
      and sx: "source x' = None" and sy: "source y' = None" using so by (cases r') auto
    from sl obtain cs ds where sc: "scalars x' = scalars y'"
      and q: "queue_inv x' cs" "queue_inv y' ds" "queue x' cs = queue y' ds"
      by (auto simp: same_lexer_def)
    have tk: "token y' = token x'" using sc by (simp add: scalars_def)
    show ?thesis
    proof (cases "b \<and> token x' \<noteq> None")
      case False
      then show ?thesis using Continue r' cx cy sl tk by (auto simp: next_def)
    next
      case True
      have gy: "graft y' x' = y'" by (rule graft_self [OF sc])
      have "cur_value y' = cur_value x'" using sx sy by (simp add: cur_value_def)
      from flushToken_graft [OF this]
      have fg: "flushToken y' = map_sum id (apsnd (graft y')) (flushToken x')" using gy by simp
      show ?thesis
      proof (cases "flushToken x'")
        case (Inl e)
        then show ?thesis using Continue r' cx cy True tk fg by (simp add: next_def)
      next
        case (Inr p)
        obtain t x'' where p: "p = (t, x'')" by (cases p)
        from flushToken_frame [of x' t x''] Inr p
        have fr: "heap x'' = heap x'" "nextAddr x'' = nextAddr x'" "source x'' = source x'"
          "sourceTail x'' = sourceTail x'" by auto
        have "same_lexer x'' (graft y' x'')" by (rule same_lexer_graft [OF sc q fr])
        then show ?thesis using Continue r' cx cy True tk fg Inr p by (simp add: next_def)
      qed
    qed
  qed
qed


section \<open>A lexer with more chunks at the end of its queue\<close>

text \<open>
  \<open>extends w x y\<close>: the lexer \<open>y\<close> is \<open>x\<close> with the chunks \<open>w\<close> added at the end of its queue.
\<close>

definition "extends" :: "chunk list \<Rightarrow> lexer \<Rightarrow> lexer \<Rightarrow> bool" where
  "extends w x y \<longleftrightarrow>
     scalars x = scalars y
     \<and> (\<exists>as bs. queue_inv x as \<and> queue_inv y bs \<and> queue y bs = queue x as @ w)"

lemma appendSource_extends:
  assumes "queue_inv x as"
  shows "\<exists>y. appendSource v x = Inr y \<and> extends [v] x y"
proof -
  from appendSource_queue [OF assms, of v] obtain y where y: "appendSource v x = Inr y"
    "queue_inv y (as @ [nextAddr x])" "queue y (as @ [nextAddr x]) = queue x as @ [v]"
    "sourceOffset y = sourceOffset x" "tokenOffset y = tokenOffset x"
    "tokenLine y = tokenLine x" "tokenColumn y = tokenColumn x"
    "token y = token x" "tokenValueOffset y = tokenValueOffset x" by blast
  have "scalars x = scalars y" using y(4-9) by (simp add: scalars_def)
  then have "extends [v] x y" using assms y(2,3) unfolding extends_def by blast
  then show ?thesis using y(1) by blast
qed

lemma extends_same:
  assumes "extends w x x'" and "same_lexer x y" and "extends w y y'"
  shows "same_lexer x' y'"
proof -
  from assms(1) obtain as as' where 1: "scalars x = scalars x'" "queue_inv x as"
    "queue_inv x' as'" "queue x' as' = queue x as @ w" by (auto simp: extends_def)
  from assms(2) obtain bs cs where 2: "scalars x = scalars y" "queue_inv x bs"
    "queue_inv y cs" "queue x bs = queue y cs" by (auto simp: same_lexer_def)
  from assms(3) obtain ds ds' where 3: "scalars y = scalars y'" "queue_inv y ds"
    "queue_inv y' ds'" "queue y' ds' = queue y ds @ w" by (auto simp: extends_def)
  have "bs = as" by (rule queue_inv_unique [OF 2(2) 1(2)])
  moreover have "ds = cs" by (rule queue_inv_unique [OF 3(2) 2(3)])
  ultimately have "queue x' as' = queue y' ds'" using 1(4) 2(4) 3(4) by simp
  moreover have "scalars x' = scalars y'" using 1(1) 2(1) 3(1) by simp
  ultimately show ?thesis using 1(3) 3(3) unfolding same_lexer_def by blast
qed


section \<open>Reading whole chunks\<close>

text \<open>
  \<open>drain k s\<close>: \<open>k\<close> rounds of the outer loop of \<open>next\<close>, each of which reads the head
  chunk to its end without completing a token and drops it.
\<close>

fun drain :: "nat \<Rightarrow> lexer \<Rightarrow> lexer option" where
  "drain 0 s = Some s"
| "drain (Suc k) s =
     (case scan_chunk s of
        Continue s1 \<Rightarrow> (case end_of_chunk s1 of Inl e \<Rightarrow> None | Inr s2 \<Rightarrow> drain k s2)
      | _ \<Rightarrow> None)"

lemma drain_Suc:
  assumes "drain (Suc k) s = Some z"
  shows "\<exists>a s1 s2. source s = Some a \<and> scan_chunk s = Continue s1 \<and> end_of_chunk s1 = Inr s2
           \<and> drain k s2 = Some z"
proof -
  from assms obtain s1 where s1: "scan_chunk s = Continue s1"
    by (cases "scan_chunk s") auto
  with assms obtain s2 where s2: "end_of_chunk s1 = Inr s2" "drain k s2 = Some z"
    by (cases "end_of_chunk s1") auto
  have "source s \<noteq> None" using s1 scan_chunk_None [of s] by auto
  then show ?thesis using s1 s2 by auto
qed

lemma drain_chunks_loop: "drain k s = Some z \<Longrightarrow> chunks_loop s = chunks_loop z"
proof (induction k arbitrary: s)
  case 0
  then show ?case by simp
next
  case (Suc k)
  from drain_Suc [OF Suc.prems] obtain a s1 s2 where a: "source s = Some a"
    and s: "scan_chunk s = Continue s1" "end_of_chunk s1 = Inr s2" "drain k s2 = Some z"
    by blast
  from Suc.IH [OF s(3)] show ?case using s by (simp add: chunks_loop_Some [OF a])
qed

lemma round_frame:
  assumes q: "queue_inv x (a # as)" and s: "scan_chunk x = Continue x1"
    and e: "end_of_chunk x1 = Inr x2"
  shows "queue_inv x2 as \<and> heap x2 = heap x"
proof -
  from scan_chunk_frame [of x x1] s
  have fr: "heap x1 = heap x" "nextAddr x1 = nextAddr x" "source x1 = source x"
    "sourceTail x1 = sourceTail x" by auto
  have sx1: "source x1 = Some a" using fr queue_inv_head [OF q] by simp
  from end_of_chunk_same [OF refl sx1 sx1 refl] e
  have fx: "heap x2 = heap x1" "nextAddr x2 = nextAddr x1"
    "source x2 = chunk_next (heap x1 a)"
    "sourceTail x2 = (if chunk_next (heap x1 a) = None then None else sourceTail x1)"
    by auto
  have "queue_inv x1 (a # as)" using q queue_inv_cong [OF fr] by simp
  from queue_inv_tail [OF this fx] show ?thesis using fx(1) fr(1) by simp
qed

lemma chunks_loop_drain:
  assumes "queue_inv s as" and "chunks_loop s = Some (Continue s')"
  shows "drain (length as) s = Some s' \<and> queue_inv s' []"
  using assms
proof (induction as arbitrary: s)
  case Nil
  then have "source s = None" using queue_inv_source by auto
  then show ?case using Nil by (simp add: chunks_loop_None)
next
  case (Cons a as)
  have sx: "source s = Some a" using Cons.prems(1) by (rule queue_inv_head)
  from Cons.prems(2) obtain s1 where s1: "scan_chunk s = Continue s1"
    by (cases "scan_chunk s") (auto simp: chunks_loop_Some [OF sx])
  with Cons.prems(2) obtain s2 where s2: "end_of_chunk s1 = Inr s2"
    and cl: "chunks_loop s2 = Some (Continue s')"
    by (cases "end_of_chunk s1") (auto simp: chunks_loop_Some [OF sx])
  from round_frame [OF Cons.prems(1) s1 s2] have "queue_inv s2 as" by simp
  from Cons.IH [OF this cl] show ?case using s1 s2 by simp
qed

lemma round_same:
  assumes sc: "scalars x = scalars y" and qx: "queue_inv x (a # as)"
    and qy: "queue_inv y (b # bs)" and cv: "chunk_value (heap x a) = chunk_value (heap y b)"
    and s: "scan_chunk x = Continue x1" and e: "end_of_chunk x1 = Inr x2"
  shows "\<exists>y1 y2. scan_chunk y = Continue y1 \<and> end_of_chunk y1 = Inr y2
           \<and> scalars x2 = scalars y2"
proof -
  have sx: "source x = Some a" and sy: "source y = Some b"
    using qx qy queue_inv_head by auto
  have gy: "graft y x = y" by (rule graft_self [OF sc])
  have "cur_value y = cur_value x" using sx sy cv by (simp add: cur_value_def)
  from scan_chunk_graft [OF this] have sg: "scan_chunk y = map_outcome (graft y) (scan_chunk x)"
    using gy by simp
  define y1 where "y1 = graft y x1"
  from scan_chunk_frame [of x x1] s
  have fr: "heap x1 = heap x" "nextAddr x1 = nextAddr x" "source x1 = source x"
    "sourceTail x1 = sourceTail x" by auto
  have sy1: "scan_chunk y = Continue y1" using s sg by (simp add: y1_def)
  have sc1: "scalars x1 = scalars y1" by (simp add: y1_def scalars_graft)
  have sx1: "source x1 = Some a" and sy1': "source y1 = Some b"
    using fr sx sy by (simp_all add: y1_def)
  have cv1: "chunk_value (heap x1 a) = chunk_value (heap y1 b)"
    using cv fr by (simp add: y1_def)
  from end_of_chunk_same [OF sc1 sx1 sy1' cv1] e
  obtain y2 where "end_of_chunk y1 = Inr y2" "scalars x2 = scalars y2" by auto
  then show ?thesis using sy1 by blast
qed

lemma drain_extends:
  assumes "extends w x y" and "drain k x = Some z"
  shows "\<exists>zy. drain k y = Some zy \<and> extends w z zy"
  using assms
proof (induction k arbitrary: x y)
  case 0
  then show ?case by simp
next
  case (Suc k)
  from drain_Suc [OF Suc.prems(2)] obtain a x1 x2 where a: "source x = Some a"
    and s: "scan_chunk x = Continue x1" "end_of_chunk x1 = Inr x2" "drain k x2 = Some z"
    by blast
  from Suc.prems(1) obtain as bs where sc: "scalars x = scalars y"
    and q: "queue_inv x as" "queue_inv y bs" "queue y bs = queue x as @ w"
    by (auto simp: extends_def)
  from q(1) a obtain as' where as: "as = a # as'"
    by (cases as) (auto simp: queue_inv_def)
  from q(3) as obtain b bs' where bs: "bs = b # bs'"
    and cv: "chunk_value (heap x a) = chunk_value (heap y b)"
    and qq: "queue y bs' = queue x as' @ w"
    by (cases bs) (auto simp: queue_def)
  have qx: "queue_inv x (a # as')" and qy: "queue_inv y (b # bs')" using q as bs by auto
  from round_same [OF sc qx qy cv s(1,2)] obtain y1 y2
    where y: "scan_chunk y = Continue y1" "end_of_chunk y1 = Inr y2"
      and sc2: "scalars x2 = scalars y2" by blast
  from round_frame [OF qx s(1,2)] have fx: "queue_inv x2 as'" "heap x2 = heap x" by auto
  from round_frame [OF qy y] have fy: "queue_inv y2 bs'" "heap y2 = heap y" by auto
  have "queue y2 bs' = queue x2 as' @ w" using qq fx(2) fy(2) by (simp add: queue_def)
  then have "extends w x2 y2" using sc2 fx(1) fy(1) unfolding extends_def by blast
  from Suc.IH [OF this s(3)] show ?case using y by simp
qed

lemma drain_same:
  assumes "same_lexer x y" and "drain k x = Some z"
  shows "\<exists>zy. drain k y = Some zy \<and> same_lexer z zy"
proof -
  have "extends [] x y" using assms(1) by (simp add: extends_def same_lexer_def) metis
  from drain_extends [OF this assms(2)] show ?thesis
    by (simp add: extends_def same_lexer_def) metis
qed


section \<open>Sequences of calls\<close>

text \<open>
  What a caller does with a lexer is a sequence of \<open>appendSource\<close> and \<open>next\<close> calls, and
  what it sees is what each \<open>next\<close> returns, up to the first exception.  \<open>None\<close> is a
  call that does not return.
\<close>

datatype call = Append chunk | Next bool

datatype event = Tok "token option" | Err error

fun run :: "call list \<Rightarrow> lexer \<Rightarrow> event list option" where
  "run [] s = Some []"
| "run (Append v # cs) s =
     (case appendSource v s of Inl e \<Rightarrow> Some [Err e] | Inr s' \<Rightarrow> run cs s')"
| "run (Next b # cs) s =
     (case next b s of
        None \<Rightarrow> None
      | Some (Inl e) \<Rightarrow> Some [Err e]
      | Some (Inr (t, s')) \<Rightarrow> map_option ((#) (Tok t)) (run cs s'))"

text \<open>
  \<open>ahead s s'\<close>: the lexer \<open>s'\<close> is \<open>s\<close> after it has read some of its chunks to their
  ends without completing a token.
\<close>

definition ahead :: "lexer \<Rightarrow> lexer \<Rightarrow> bool" where
  "ahead s s' \<longleftrightarrow>
     (\<exists>as. queue_inv s as) \<and> (\<exists>k z. drain k s = Some z \<and> same_lexer z s')"

lemma same_lexer_ahead: "same_lexer x y \<Longrightarrow> ahead x y"
proof -
  assume a: "same_lexer x y"
  then obtain as where "queue_inv x as" by (auto simp: same_lexer_def)
  moreover have "drain 0 x = Some x" by simp
  ultimately show ?thesis using a unfolding ahead_def by blast
qed

lemma ahead_appendSource:
  assumes "ahead s s'"
  shows "\<exists>s1 s1'. appendSource v s = Inr s1 \<and> appendSource v s' = Inr s1' \<and> ahead s1 s1'"
proof -
  from assms obtain as k z where q: "queue_inv s as" and d: "drain k s = Some z"
    and sl: "same_lexer z s'" by (auto simp: ahead_def)
  from sl obtain zs bs where qz: "queue_inv z zs" and q': "queue_inv s' bs"
    by (auto simp: same_lexer_def)
  from appendSource_extends [OF q, of v] obtain s1
    where s1: "appendSource v s = Inr s1" "extends [v] s s1" by blast
  from appendSource_extends [OF q', of v] obtain s1'
    where s1': "appendSource v s' = Inr s1'" "extends [v] s' s1'" by blast
  from drain_extends [OF s1(2) d] obtain z1
    where z1: "drain k s1 = Some z1" "extends [v] z z1" by blast
  have "same_lexer z1 s1'" by (rule extends_same [OF z1(2) sl s1'(2)])
  moreover from s1(2) obtain cs where "queue_inv s1 cs" by (auto simp: extends_def)
  ultimately have "ahead s1 s1'" using z1(1) unfolding ahead_def by blast
  then show ?thesis using s1(1) s1'(1) by blast
qed

lemma ahead_next:
  assumes "ahead s s'"
  shows "(\<exists>e. next b s = Some (Inl e) \<and> next b s' = Some (Inl e))
       \<or> (\<exists>t s1 s1'. next b s = Some (Inr (t, s1)) \<and> next b s' = Some (Inr (t, s1'))
            \<and> ahead s1 s1')"
proof -
  from assms obtain k z where d: "drain k s = Some z" and sl: "same_lexer z s'"
    by (auto simp: ahead_def)
  have "next b s = next b z" using drain_chunks_loop [OF d] by (simp add: next_def)
  then show ?thesis using next_same [OF sl, of b] same_lexer_ahead by auto
qed

lemma run_ahead: "ahead s s' \<Longrightarrow> run cs s = run cs s'"
proof (induction cs arbitrary: s s')
  case Nil
  show ?case by simp
next
  case (Cons c cs)
  show ?case
  proof (cases c)
    case (Append v)
    from ahead_appendSource [OF Cons.prems, of v] obtain s1 s1'
      where a: "appendSource v s = Inr s1" "appendSource v s' = Inr s1'" "ahead s1 s1'"
      by blast
    from Cons.IH [OF a(3)] show ?thesis using Append a by simp
  next
    case (Next b)
    from ahead_next [OF Cons.prems, of b] show ?thesis
    proof
      assume "\<exists>e. next b s = Some (Inl e) \<and> next b s' = Some (Inl e)"
      then show ?thesis using Next by auto
    next
      assume "\<exists>t s1 s1'. next b s = Some (Inr (t, s1)) \<and> next b s' = Some (Inr (t, s1'))
            \<and> ahead s1 s1'"
      then obtain t s1 s1' where n: "next b s = Some (Inr (t, s1))"
        "next b s' = Some (Inr (t, s1'))" "ahead s1 s1'" by blast
      from Cons.IH [OF n(3)] show ?thesis using Next n by simp
    qed
  qed
qed

lemma next_no_token:
  assumes "next False s = Some (Inr (None, s'))"
  shows "chunks_loop s = Some (Continue s')"
proof -
  from assms obtain r where r: "chunks_loop s = Some r"
    by (cases "chunks_loop s") (auto simp: next_def)
  then show ?thesis using assms by (cases r) (auto simp: next_def)
qed

lemma no_token_ahead:
  assumes "queue_inv s as" and "next False s = Some (Inr (None, s'))"
  shows "ahead s s' \<and> source s' = None"
proof -
  from chunks_loop_drain [OF assms(1) next_no_token [OF assms(2)]]
  have d: "drain (length as) s = Some s'" and q: "queue_inv s' []" by auto
  have "same_lexer s' s'" using q by (rule same_lexer_refl)
  then have "ahead s s'" using assms(1) d unfolding ahead_def by blast
  then show ?thesis using q queue_inv_source by auto
qed


section \<open>A call of \<open>next\<close> that returns no token\<close>

text \<open>
  When \<open>next(false)\<close> returns \<open>null\<close> in a session, the lexer has read all the text
  appended so far and its queue is empty.  The text of the token being read, if it is
  a SYMBOL or a number, is held in the value of the token, from the token's offset to
  the end of the text.  A further \<open>next(false)\<close> returns \<open>null\<close> and leaves the lexer as
  it is, and any sequence of calls has the same results from the lexer after the call
  as from the lexer before it.
\<close>

lemma no_token_call_resumable:
  assumes "session fed toks s" and "next False s = Some (Inr (None, s'))"
  shows "source s' = None \<and> tokenOffset s' = int (length fed) \<and> tokenValueOffset s' = - 1
       \<and> (\<forall>t. token s' = Some t \<and> tok_type t \<noteq> LINE \<longrightarrow>
             tok_value t = Str (slice fed (offset t) (int (length fed))))
       \<and> next False s' = Some (Inr (None, s'))
       \<and> (\<forall>cs. run cs s' = run cs s)"
proof -
  from session_inv [OF assms(1)] obtain as lb where "lexer_inv fed lb as s" by blast
  then have q: "queue_inv s as" by (simp add: lexer_inv_def text_inv_def)
  from no_token_ahead [OF q assms(2)] have a: "ahead s s'" and src: "source s' = None"
    by auto
  have n: "next False s' = Some (Inr (None, s'))"
    using src by (simp add: next_def chunks_loop_None)
  have r: "\<forall>cs. run cs s' = run cs s" using run_ahead [OF a] by simp
  have "session fed toks s'" by (rule session.no_token [OF assms])
  from session_inv [OF this] obtain as' lb' where i: "lexer_inv fed lb' as' s'" by blast
  then have "queue_inv s' as'" by (simp add: lexer_inv_def text_inv_def)
  then have e: "as' = []" using src queue_inv_source by blast
  have ti: "text_inv fed [] s'" and tk: "token_ok fed [] s'"
    using i e by (simp_all add: lexer_inv_def)
  from ti have so: "sourceOffset s' = 0" and le: "tokenOffset s' \<le> int (length fed)"
    and dr: "length fed \<le> nat (tokenOffset s')" and ge: "0 \<le> tokenOffset s'"
    by (auto simp: text_inv_def queue_def)
  from dr ge have "int (length fed) \<le> tokenOffset s'" by linarith
  with le have to: "tokenOffset s' = int (length fed)" by simp
  have tv: "tokenValueOffset s' = - 1"
    using tk by (cases "token s'") (auto simp: token_ok_def split: if_splits)
  have "\<forall>t. token s' = Some t \<and> tok_type t \<noteq> LINE \<longrightarrow>
             tok_value t = Str (slice fed (offset t) (int (length fed)))"
    using tk to by (auto simp: token_ok_def split: if_splits)
  then show ?thesis using src to tv n r by blast
qed


section \<open>The claims\<close>

subsection \<open>C1: chunk-boundary transparency\<close>

text \<open>
  C1 says that the tokens do not depend on how the source is cut into chunks.  The
  code does not do that.  The source \<open>( a\<close> as one chunk gives a LEFT_PAREN and the
  SYMBOL \<open>a\<close>; cut as \<open>(\<close> and \<open> a\<close> it gives a LINE token between the two, because
  the test for leading space of the first line reads the offset into the head chunk
  (\<open>sourceOffset\<close>), which is 0 at the start of every chunk.
\<close>

theorem C1_split_changes_tokens:
  "concat [[40], [32, 97]] = concat [[40, 32, 97 :: int]]
   \<and> tokens_of_chunks [[40, 32, 97]] =
       Some (Inr [\<lparr>tok_type = LEFT_PAREN, tok_value = Undefined, offset = 0, line = 0, column = 0\<rparr>,
                  \<lparr>tok_type = SYMBOL, tok_value = Str [97], offset = 2, line = 0, column = 2\<rparr>])
   \<and> tokens_of_chunks [[40], [32, 97]] =
       Some (Inr [\<lparr>tok_type = LEFT_PAREN, tok_value = Undefined, offset = 0, line = 0, column = 0\<rparr>,
                  \<lparr>tok_type = LINE, tok_value = Num 0, offset = 1, line = 0, column = 1\<rparr>,
                  \<lparr>tok_type = SYMBOL, tok_value = Str [97], offset = 2, line = 0, column = 2\<rparr>])"
  by code_simp

subsection \<open>C2: the hexadecimal prefix\<close>

text \<open>
  C2 says that an \<open>x\<close> after a decimal number whose text is exactly \<open>0\<close> turns the
  token into a HEX_NUMBER, in both capture modes.  In the buffered mode the code reads
  the undeclared identifier \<open>DIGIT_ZERO\<close> and throws a \<open>ReferenceError\<close>: the source
  \<open>0x1\<close> is a HEX_NUMBER as one chunk and an error when cut after the \<open>0\<close>.
\<close>

theorem C2_buffered_zero_x_throws:
  "tokens_of_chunks [[48, 120, 49]] =
       Some (Inr [\<lparr>tok_type = HEX_NUMBER, tok_value = Str [48, 120, 49], offset = 0, line = 0, column = 0\<rparr>])
   \<and> tokens_of_chunks [[48], [120, 49]] = Some (Inl ReferenceError)"
  by code_simp

subsection \<open>C3: leading whitespace\<close>

text \<open>
  C3 says that a whitespace character that is not a line break starts a LINE token
  only as the first character of the whole input.  The code starts one at the first
  character of every chunk when no token is being read: with the chunks \<open>a\<close> and
  \<open> b\<close> the space, at offset 1 of the input, gives a LINE token.
\<close>

theorem C3_space_at_chunk_start_starts_line:
  "is_whitespace 32 \<and> \<not> is_linebreak 32
   \<and> tokens_of_chunks [[97], [32, 98]] =
       Some (Inr [\<lparr>tok_type = SYMBOL, tok_value = Str [97], offset = 0, line = 0, column = 0\<rparr>,
                  \<lparr>tok_type = LINE, tok_value = Num 0, offset = 1, line = 0, column = 1\<rparr>,
                  \<lparr>tok_type = SYMBOL, tok_value = Str [98], offset = 2, line = 0, column = 2\<rparr>])"
  by code_simp

subsection \<open>C4: the scan position\<close>

text \<open>
  The position counters of the lexer after a whole session with the given chunks:
  all chunks appended, and all tokens read with \<open>source_ended = true\<close>.
\<close>

definition final_position :: "chunk list \<Rightarrow> (error + int \<times> int \<times> int) option" where
  "final_position vs =
     (case read_tokens True [] (lexer_after vs) of
        None \<Rightarrow> None
      | Some (Inl e) \<Rightarrow> Some (Inl e)
      | Some (Inr (toks, s')) \<Rightarrow> Some (Inr (position s')))"

text \<open>
  C4 as stated fails: the line counter moves on LINE FEED only.  CARRIAGE RETURN
  (13) is a line break for \<open>is_linebreak\<close>; after the lexer has consumed the input
  that consists of this one character the line is still 0 and the column is 1.
\<close>

theorem C4_carriage_return_keeps_line:
  "is_linebreak 13 \<and> final_position [[13]] = Some (Inr (1, 0, 1))"
  by code_simp

text \<open>
  C4, amended: in every session, the characters read are the first \<open>tokenOffset\<close>
  characters of the text appended so far and the rest of that text is what the queue
  still holds from \<open>sourceOffset\<close> on; the counters are those of \<open>track\<close> over the
  characters read: the offset is their number, the line is the number of LINE FEEDs
  among them and the column is the number of characters after the last LINE FEED.
  So the offset grows by one for each character read, and the line grows and the
  column goes back to 0 exactly at a LINE FEED; every other character, the other
  line breaks included, advances the column.
\<close>

theorem C4_position_counts_line_feeds:
  assumes "session fed toks s"
  shows "0 \<le> tokenOffset s \<and> tokenOffset s \<le> int (length fed)
       \<and> (tokenOffset s, tokenLine s, tokenColumn s)
            = track (0, 0, 0) (take (nat (tokenOffset s)) fed)
       \<and> (\<exists>as. queue_inv s as
             \<and> drop (nat (sourceOffset s)) (concat (queue s as))
                 = drop (nat (tokenOffset s)) fed)"
proof -
  from session_inv [OF assms] obtain as lb where "lexer_inv fed lb as s" by auto
  then have ti: "text_inv fed as s" by (simp add: lexer_inv_def)
  then have q: "queue_inv s as" and k: "0 \<le> sourceOffset s" "sourceOffset s \<le> tokenOffset s"
    and n: "tokenOffset s \<le> int (length fed)"
    and d: "drop (nat (tokenOffset s - sourceOffset s)) fed = concat (queue s as)"
    and pos: "position s = track (0, 0, 0) (take (nat (tokenOffset s)) fed)"
    by (auto simp: text_inv_def)
  have "nat (tokenOffset s) = nat (sourceOffset s) + nat (tokenOffset s - sourceOffset s)"
    using k by linarith
  then have "drop (nat (sourceOffset s)) (concat (queue s as)) = drop (nat (tokenOffset s)) fed"
    unfolding d [symmetric] by simp
  then show ?thesis using q k n pos by (auto simp: position_def)
qed

text \<open>
  A session for C4: the chunk CARRIAGE RETURN, LINE FEED, \<open>b\<close>, and two tokens read
  (the LINE token of each line break).  Two characters have been read, one of them a
  LINE FEED: the position is offset 2, line 1, column 0.
\<close>

theorem C4_position_witness:
  "session [13, 10, 98]
     [\<lparr>tok_type = LINE, tok_value = Num 0, offset = 0, line = 0, column = 0\<rparr>,
      \<lparr>tok_type = LINE, tok_value = Num 0, offset = 1, line = 0, column = 1\<rparr>]
     (state_after_next False (state_after_next False (lexer_after [[13, 10, 98]])))
   \<and> position (state_after_next False (state_after_next False (lexer_after [[13, 10, 98]])))
       = (2, 1, 0)
   \<and> track (0, 0, 0) (take 2 [13, 10, 98]) = (2, 1, 0)"
proof -
  let ?s0 = "lexer_after [[13, 10, 98]]"
  let ?s1 = "state_after_next False ?s0"
  let ?s2 = "state_after_next False ?s1"
  let ?t1 = "\<lparr>tok_type = LINE, tok_value = Num 0, offset = 0, line = 0, column = 0\<rparr>"
  let ?t2 = "\<lparr>tok_type = LINE, tok_value = Num 0, offset = 1, line = 0, column = 1\<rparr>"
  have n1: "next False ?s0 = Some (Inr (Some ?t1, ?s1))" by (rule next_resultI) code_simp
  have n2: "next False ?s1 = Some (Inr (Some ?t2, ?s2))" by (rule next_resultI) code_simp
  have se: "session [13, 10, 98] [?t1, ?t2] ?s2"
    using session.got_token [OF session.got_token [OF session_one_chunk n1] n2] by simp
  have "tokenOffset ?s2 = 2" by code_simp
  with C4_position_counts_line_feeds [OF se]
  have "position ?s2 = track (0, 0, 0) (take 2 [13, 10, 98])" by (simp add: position_def)
  moreover have "track (0, 0, 0) (take 2 [13, 10, 98]) = (2, 1, 0)" by code_simp
  ultimately show ?thesis using se by simp
qed

subsection \<open>C9: the positions of the tokens\<close>

text \<open>
  C9 as stated fails where it counts line breaks: the line of a token counts LINE
  FEEDs only.  In the source CARRIAGE RETURN, \<open>(\<close> a line-break character comes
  before the parenthesis, yet the LEFT_PAREN token is at line 0, column 1.
\<close>

theorem C9_carriage_return_before_token:
  "is_linebreak 13
   \<and> tokens_of_chunks [[13, 40]] =
       Some (Inr [\<lparr>tok_type = LINE, tok_value = Num 0, offset = 0, line = 0, column = 0\<rparr>,
                  \<lparr>tok_type = LEFT_PAREN, tok_value = Undefined, offset = 1, line = 0, column = 1\<rparr>])"
  by code_simp

text \<open>
  C9, amended: in every session the offsets of the tokens returned are strictly
  increasing, and every token's offset, line and column are the position of its first
  character in the text appended so far: the line is the number of LINE FEEDs before
  it, the column the number of characters since the last of them.
\<close>

theorem C9_token_positions:
  assumes "session fed toks s"
  shows "sorted_wrt (<) (map offset toks)
       \<and> (\<forall>t \<in> set toks. 0 \<le> offset t \<and> offset t < int (length fed)
             \<and> (offset t, line t, column t) = track (0, 0, 0) (take (nat (offset t)) fed))"
  using session_inv [OF assms] by (auto simp: token_at_def)

text \<open>
  A session for C9: the chunks \<open>a\<close>, LINE FEED and space, \<open>b\<close>; three tokens read.
  The SYMBOL \<open>b\<close> is at offset 3, line 1, column 1.
\<close>

theorem C9_token_positions_witness:
  "session [97, 10, 32, 98]
     [\<lparr>tok_type = SYMBOL, tok_value = Str [97], offset = 0, line = 0, column = 0\<rparr>,
      \<lparr>tok_type = LINE, tok_value = Num 1, offset = 1, line = 0, column = 1\<rparr>,
      \<lparr>tok_type = SYMBOL, tok_value = Str [98], offset = 3, line = 1, column = 1\<rparr>]
     (state_after_next True (state_after_next True (state_after_next True
        (lexer_after [[97, 10], [32, 98]]))))
   \<and> sorted_wrt (<) [0, 1, 3 :: int]
   \<and> track (0, 0, 0) (take 3 [97, 10, 32, 98]) = (3, 1, 1)"
proof -
  let ?s0 = "lexer_after [[97, 10], [32, 98]]"
  let ?s1 = "state_after_next True ?s0"
  let ?s2 = "state_after_next True ?s1"
  let ?s3 = "state_after_next True ?s2"
  let ?t1 = "\<lparr>tok_type = SYMBOL, tok_value = Str [97], offset = 0, line = 0, column = 0\<rparr>"
  let ?t2 = "\<lparr>tok_type = LINE, tok_value = Num 1, offset = 1, line = 0, column = 1\<rparr>"
  let ?t3 = "\<lparr>tok_type = SYMBOL, tok_value = Str [98], offset = 3, line = 1, column = 1\<rparr>"
  have n1: "next True ?s0 = Some (Inr (Some ?t1, ?s1))" by (rule next_resultI) code_simp
  have n2: "next True ?s1 = Some (Inr (Some ?t2, ?s2))" by (rule next_resultI) code_simp
  have n3: "next True ?s2 = Some (Inr (Some ?t3, ?s3))" by (rule next_resultI) code_simp
  have "session ([97, 10] @ [32, 98]) [] ?s0" by (rule session_two_chunks)
  from session.got_token [OF session.got_token [OF session.got_token [OF this n1] n2] n3]
  have se: "session [97, 10, 32, 98] [?t1, ?t2, ?t3] ?s3" by simp
  note c9 = C9_token_positions [OF se]
  from c9 have "sorted_wrt (<) (map offset [?t1, ?t2, ?t3])" by (rule conjunct1)
  then have so: "sorted_wrt (<) [0, 1, 3 :: int]" by simp
  have "?t3 \<in> set [?t1, ?t2, ?t3]" by simp
  from bspec [OF conjunct2 [OF c9] this]
  have "track (0, 0, 0) (take 3 [97, 10, 32, 98]) = (3, 1, 1)"
    by (simp add: LINE_FEED_def)
  with se so show ?thesis by simp
qed

subsection \<open>C10: the head and the tail of the queue\<close>



subsection \<open>C5: the value of a LINE token\<close>

text \<open>
  C5: when \<open>next\<close> returns a LINE token whose first character is a line break, the
  value of the token is the offset at the flush, minus the offset of the token, minus
  one, and that is the number of space characters that follow the line break in the
  text appended so far.
\<close>

theorem C5_line_value:
  assumes "session fed toks s" and "next b s = Some (Inr (Some t, s'))"
    and "tok_type t = LINE" and "is_linebreak (fed ! nat (offset t))"
  shows "tok_value t = Num (tokenOffset s' - offset t - 1)
       \<and> tokenOffset s' - offset t - 1
           = int (length (takeWhile is_space (drop (nat (offset t) + 1) fed)))"
proof -
  from session_inv [OF assms(1)] obtain as lb where i: "lexer_inv fed lb as s" by auto
  from next_inv [OF i, of b] assms(2)
  obtain k where ro: "returned_ok fed lb (drop k as) t s'" by auto
  have v: "tok_value t = Num (tokenOffset s' - offset t - 1)"
    and sp: "list_all is_space (slice fed (offset t + 1) (tokenOffset s'))"
    and off: "0 \<le> offset t" "offset t < tokenOffset s'"
    and tm: "case drop (nat (tokenOffset s')) fed of [] \<Rightarrow> True | c # _ \<Rightarrow> terminator LINE c"
    using ro assms(3) by (auto simp: returned_ok_def cong: list.case_cong)
  have n: "tokenOffset s' \<le> int (length fed)"
    using ro by (simp add: returned_ok_def lexer_inv_def text_inv_def)
  have tm': "case drop (nat (tokenOffset s')) fed of [] \<Rightarrow> True | c # _ \<Rightarrow> \<not> is_space c"
    using tm by (simp add: terminator_def split: list.splits)
  have "drop (nat (offset t + 1)) fed
          = slice fed (offset t + 1) (tokenOffset s') @ drop (nat (tokenOffset s')) fed"
    using off n by (intro drop_slice_split) simp_all
  then have "takeWhile is_space (drop (nat (offset t + 1)) fed)
          = slice fed (offset t + 1) (tokenOffset s')"
    using takeWhile_prefix [OF sp tm'] by simp
  moreover have "nat (offset t + 1) = nat (offset t) + 1" using off by simp
  moreover have "int (length (slice fed (offset t + 1) (tokenOffset s')))
          = tokenOffset s' - (offset t + 1)"
    using off n by (intro length_slice) simp_all
  ultimately show ?thesis using v by simp
qed

text \<open>
  The session of the specification for C5: LINE FEED, three spaces, \<open>abc\<close>, read to
  the end of the input.  The first token is a LINE token with value 3, which ends at
  offset 4; the second is the SYMBOL \<open>abc\<close>.
\<close>

theorem C5_line_value_witness:
  "session [10, 32, 32, 32, 97, 98, 99] [] (lexer_after [[10, 32, 32, 32, 97, 98, 99]])
   \<and> next True (lexer_after [[10, 32, 32, 32, 97, 98, 99]])
       = Some (Inr (Some \<lparr>tok_type = LINE, tok_value = Num 3, offset = 0, line = 0, column = 0\<rparr>,
                    state_after_next True (lexer_after [[10, 32, 32, 32, 97, 98, 99]])))
   \<and> is_linebreak ([10, 32, 32, 32, 97, 98, 99] ! 0)
   \<and> tokenOffset (state_after_next True (lexer_after [[10, 32, 32, 32, 97, 98, 99]])) = 4
   \<and> length (takeWhile is_space (drop 1 [10, 32, 32, 32, 97, 98, 99])) = 3
   \<and> tokens_of_chunks [[10, 32, 32, 32, 97, 98, 99]] =
       Some (Inr [\<lparr>tok_type = LINE, tok_value = Num 3, offset = 0, line = 0, column = 0\<rparr>,
                  \<lparr>tok_type = SYMBOL, tok_value = Str [97, 98, 99], offset = 4, line = 1, column = 3\<rparr>])"
proof -
  let ?fed = "[10, 32, 32, 32, 97, 98, 99] :: chunk"
  let ?s0 = "lexer_after [?fed]"
  let ?s1 = "state_after_next True ?s0"
  let ?t1 = "\<lparr>tok_type = LINE, tok_value = Num 3, offset = 0, line = 0, column = 0\<rparr>"
  have se: "session ?fed [] ?s0" by (rule session_one_chunk)
  have n1: "next True ?s0 = Some (Inr (Some ?t1, ?s1))" by (rule next_resultI) code_simp
  have lb: "is_linebreak (?fed ! nat (offset ?t1))" by (simp add: is_linebreak_def)
  from C5_line_value [OF se n1 _ lb]
  have "Num 3 = Num (tokenOffset ?s1 - 0 - 1)"
    and "tokenOffset ?s1 - 0 - 1 = int (length (takeWhile is_space (drop (0 + 1) ?fed)))"
    by simp_all
  then have a: "tokenOffset ?s1 = 4" and b: "length (takeWhile is_space (drop 1 ?fed)) = 3"
    by simp_all
  have c: "tokens_of_chunks [?fed] =
       Some (Inr [?t1, \<lparr>tok_type = SYMBOL, tok_value = Str [97, 98, 99], offset = 4, line = 1, column = 3\<rparr>])"
    by code_simp
  have lb0: "is_linebreak (?fed ! 0)" by (simp add: is_linebreak_def)
  show ?thesis using se n1 lb0 a b c by simp
qed

subsection \<open>C6: the terminating character is not consumed\<close>

text \<open>
  C6: when \<open>next\<close> returns a SYMBOL or a number token in a session, the lexer has
  read the text up to the end of the token and no further: the value of the token is
  the text from its offset up to \<open>tokenOffset\<close>, the character at \<open>tokenOffset\<close>, if
  there is one, is a character that ends a token of this type, and the text from
  \<open>tokenOffset\<close> on is still in the queue, unread, with no token being read.  The
  token that the next call returns starts at or after this character, with only
  whitespace in between: when the terminating character is not whitespace, it is the
  first character of the next token, and the two tokens tile the source.
\<close>

theorem C6_terminator_not_consumed:
  assumes "session fed toks s" and "next b s = Some (Inr (Some t, s'))"
    and "tok_type t \<in> {SYMBOL, DECIMAL_NUMBER, HEX_NUMBER, FRACTIONAL_NUMBER}"
  shows "token s' = None
       \<and> 0 \<le> offset t \<and> offset t < tokenOffset s' \<and> tokenOffset s' \<le> int (length fed)
       \<and> tok_value t = Str (slice fed (offset t) (tokenOffset s'))
       \<and> int (length (slice fed (offset t) (tokenOffset s'))) = tokenOffset s' - offset t
       \<and> (case drop (nat (tokenOffset s')) fed of [] \<Rightarrow> True
           | c # _ \<Rightarrow> terminator (tok_type t) c)
       \<and> (\<exists>as. queue_inv s' as
             \<and> drop (nat (sourceOffset s')) (concat (queue s' as))
                 = drop (nat (tokenOffset s')) fed)
       \<and> (\<forall>b2 t2 s2. next b2 s' = Some (Inr (Some t2, s2)) \<longrightarrow>
             tokenOffset s' \<le> offset t2
             \<and> list_all is_whitespace (slice fed (tokenOffset s') (offset t2))
             \<and> (\<not> is_whitespace (fed ! nat (tokenOffset s')) \<longrightarrow> offset t2 = tokenOffset s'))"
proof -
  from session_inv [OF assms(1)] obtain as lb where i: "lexer_inv fed lb as s" by auto
  from next_inv [OF i, of b] assms(2)
  obtain k where ro: "returned_ok fed lb (drop k as) t s'" by auto
  have ck: "tok_type t \<noteq> LINE" "capture_kind (tok_type t)"
    using assms(3) by (auto simp: capture_kind_def)
  have i': "lexer_inv fed (tokenOffset s') (drop k as) s'" and tn: "token s' = None"
    and off: "0 \<le> offset t" "offset t < tokenOffset s'"
    and v: "tok_value t = Str (slice fed (offset t) (tokenOffset s'))"
    and tm: "case drop (nat (tokenOffset s')) fed of [] \<Rightarrow> True
           | c # _ \<Rightarrow> terminator (tok_type t) c"
    using ro ck by (auto simp: returned_ok_def)
  have ti: "text_inv fed (drop k as) s'" using i' by (simp add: lexer_inv_def)
  then have q: "queue_inv s' (drop k as)" and kk: "0 \<le> sourceOffset s'"
      "sourceOffset s' \<le> tokenOffset s'"
    and n: "tokenOffset s' \<le> int (length fed)"
    and d: "drop (nat (tokenOffset s' - sourceOffset s')) fed = concat (queue s' (drop k as))"
    by (auto simp: text_inv_def)
  have len: "int (length (slice fed (offset t) (tokenOffset s'))) = tokenOffset s' - offset t"
    using off n by (intro length_slice) simp_all
  have "nat (tokenOffset s') = nat (sourceOffset s') + nat (tokenOffset s' - sourceOffset s')"
    using kk by linarith
  then have un: "drop (nat (sourceOffset s')) (concat (queue s' (drop k as)))
                   = drop (nat (tokenOffset s')) fed"
    unfolding d [symmetric] by simp
  have nx: "\<forall>b2 t2 s2. next b2 s' = Some (Inr (Some t2, s2)) \<longrightarrow>
             tokenOffset s' \<le> offset t2
             \<and> list_all is_whitespace (slice fed (tokenOffset s') (offset t2))
             \<and> (\<not> is_whitespace (fed ! nat (tokenOffset s')) \<longrightarrow> offset t2 = tokenOffset s')"
  proof (intro allI impI)
    fix b2 t2 s2
    assume n2: "next b2 s' = Some (Inr (Some t2, s2))"
    from next_inv [OF i', of b2] n2
    obtain k2 where r2: "returned_ok fed (tokenOffset s') (drop k2 (drop k as)) t2 s2" by auto
    have lo: "tokenOffset s' \<le> offset t2"
      and ws: "list_all is_whitespace (slice fed (tokenOffset s') (offset t2))"
      and hi: "offset t2 < tokenOffset s2"
      using r2 by (auto simp: returned_ok_def)
    have n2': "tokenOffset s2 \<le> int (length fed)"
      using r2 by (simp add: returned_ok_def lexer_inv_def text_inv_def)
    have "offset t2 = tokenOffset s'" if nw: "\<not> is_whitespace (fed ! nat (tokenOffset s'))"
    proof (rule ccontr)
      assume "offset t2 \<noteq> tokenOffset s'"
      then have lt: "tokenOffset s' < offset t2" using lo by simp
      have pos: "0 \<le> tokenOffset s'" using off by linarith
      have "nat (tokenOffset s') < length fed" using lt hi n2' pos by linarith
      then have "drop (nat (tokenOffset s')) fed
                   = fed ! nat (tokenOffset s') # drop (Suc (nat (tokenOffset s'))) fed"
        by (simp add: Cons_nth_drop_Suc)
      moreover have "nat (offset t2 - tokenOffset s') = Suc (nat (offset t2 - tokenOffset s' - 1))"
        using lt by linarith
      ultimately have "slice fed (tokenOffset s') (offset t2)
          = fed ! nat (tokenOffset s')
              # take (nat (offset t2 - tokenOffset s' - 1)) (drop (Suc (nat (tokenOffset s'))) fed)"
        by (simp add: slice_def)
      with ws have "is_whitespace (fed ! nat (tokenOffset s'))" by simp
      with nw show False by simp
    qed
    with lo ws show "tokenOffset s' \<le> offset t2
             \<and> list_all is_whitespace (slice fed (tokenOffset s') (offset t2))
             \<and> (\<not> is_whitespace (fed ! nat (tokenOffset s')) \<longrightarrow> offset t2 = tokenOffset s')"
      by simp
  qed
  show ?thesis using tn off n v len tm q un nx by blast
qed

text \<open>
  A session for C6: the source \<open>ab(\<close>.  The first call returns the SYMBOL \<open>ab\<close> and
  leaves the lexer at offset 2, where the parenthesis that ended the symbol is; the
  second call returns the LEFT_PAREN token at offset 2.
\<close>

theorem C6_terminator_witness:
  "session [97, 98, 40] [] (lexer_after [[97, 98, 40]])
   \<and> next False (lexer_after [[97, 98, 40]])
       = Some (Inr (Some \<lparr>tok_type = SYMBOL, tok_value = Str [97, 98], offset = 0, line = 0, column = 0\<rparr>,
                    state_after_next False (lexer_after [[97, 98, 40]])))
   \<and> SYMBOL \<in> {SYMBOL, DECIMAL_NUMBER, HEX_NUMBER, FRACTIONAL_NUMBER}
   \<and> tokenOffset (state_after_next False (lexer_after [[97, 98, 40]])) = 2
   \<and> slice [97, 98, 40] 0 2 = [97, 98]
   \<and> terminator SYMBOL 40
   \<and> next False (state_after_next False (lexer_after [[97, 98, 40]]))
       = Some (Inr (Some \<lparr>tok_type = LEFT_PAREN, tok_value = Undefined, offset = 2, line = 0, column = 2\<rparr>,
                    state_after_next False (state_after_next False (lexer_after [[97, 98, 40]]))))"
proof -
  let ?fed = "[97, 98, 40] :: chunk"
  let ?s0 = "lexer_after [?fed]"
  let ?s1 = "state_after_next False ?s0"
  let ?s2 = "state_after_next False ?s1"
  let ?t1 = "\<lparr>tok_type = SYMBOL, tok_value = Str [97, 98], offset = 0, line = 0, column = 0\<rparr>"
  let ?t2 = "\<lparr>tok_type = LEFT_PAREN, tok_value = Undefined, offset = 2, line = 0, column = 2\<rparr>"
  have se: "session ?fed [] ?s0" by (rule session_one_chunk)
  have n1: "next False ?s0 = Some (Inr (Some ?t1, ?s1))" by (rule next_resultI) code_simp
  have n2: "next False ?s1 = Some (Inr (Some ?t2, ?s2))" by (rule next_resultI) code_simp
  have ty: "tok_type ?t1 \<in> {SYMBOL, DECIMAL_NUMBER, HEX_NUMBER, FRACTIONAL_NUMBER}" by simp
  note c6 = C6_terminator_not_consumed [OF se n1 ty]
  have w: "\<not> is_whitespace (?fed ! nat (tokenOffset ?s1))" by code_simp
  from c6 n2 w have "offset ?t2 = tokenOffset ?s1" by blast
  then have a: "tokenOffset ?s1 = 2" by simp
  from c6 have "tok_value ?t1 = Str (slice ?fed (offset ?t1) (tokenOffset ?s1))" by blast
  then have b: "slice ?fed 0 2 = [97, 98]" using a by simp
  from c6 have "case drop (nat (tokenOffset ?s1)) ?fed of [] \<Rightarrow> True
           | c # _ \<Rightarrow> terminator (tok_type ?t1) c" by blast
  then have c: "terminator SYMBOL 40" using a by simp
  show ?thesis using se n1 n2 a b c by simp
qed

subsection \<open>C8: the capture mode of a token\<close>





subsection \<open>C7: completing the token after a call that returned no token\<close>

text \<open>
  C7 says that when \<open>next(false)\<close> returns \<open>null\<close> the token being read is retained,
  further calls of \<open>next(false)\<close> return \<open>null\<close>, and once more input is appended the
  token is completed as if the input had been available all along.  The code retains
  the token: after the chunk \<open>0\<close> two calls of \<open>next(false)\<close> return \<open>null\<close>, and the
  lexer holds the DECIMAL_NUMBER with the text \<open>0\<close>.  But it does not complete it: when
  the chunk \<open>x1\<close> is appended, \<open>next(true)\<close> throws a \<open>ReferenceError\<close>, as the test for
  the hexadecimal prefix of a buffered token reads the undeclared identifier
  \<open>DIGIT_ZERO\<close>; with \<open>0x1\<close> appended as one chunk \<open>next(true)\<close> returns the HEX_NUMBER
  \<open>0x1\<close>.  The call that returned \<open>null\<close> is not what loses the token: the exception
  is the same when both chunks are appended before the first call of \<open>next\<close>.
\<close>

theorem C7_pending_zero_not_completed:
  "run [Append [48], Next False, Next False, Append [120, 49], Next True] Lexer
     = Some [Tok None, Tok None, Err ReferenceError]
   \<and> token (state_after_next False (lexer_after [[48]]))
     = Some \<lparr>tok_type = DECIMAL_NUMBER, tok_value = Str [48], offset = 0, line = 0, column = 0\<rparr>
   \<and> run [Append [48, 120, 49], Next True] Lexer
     = Some [Tok (Some \<lparr>tok_type = HEX_NUMBER, tok_value = Str [48, 120, 49],
                        offset = 0, line = 0, column = 0\<rparr>)]
   \<and> run [Append [48], Append [120, 49], Next True] Lexer = Some [Err ReferenceError]"
  by code_simp

end
